theory Spec2Isabelle
  imports Complex_Main "HOL-Library.AList"
begin

section \<open>Strings\<close>

text \<open>
  A JavaScript string is modelled as a \<^typ>\<open>string\<close>, a list of characters with codes
  0 to 255. The operations below are the library calls the engine makes on strings,
  written out for that alphabet.
\<close>

definition startsWith :: "string \<Rightarrow> string \<Rightarrow> bool" where
  "startsWith s p = (take (length p) s = p)"

text \<open>White space as \<open>trim\<close>, \<open>\s\<close> and \<open>parseFloat\<close> see it: tab, line feed, vertical tab,
  form feed, carriage return, space and the no-break space.\<close>

definition isSpace :: "char \<Rightarrow> bool" where
  "isSpace c = (c \<in> set [CHR 0x09, CHR 0x0A, CHR 0x0B, CHR 0x0C, CHR 0x0D, CHR 0x20, CHR 0xA0])"

definition trim :: "string \<Rightarrow> string" where
  "trim s = rev (dropWhile isSpace (rev (dropWhile isSpace s)))"

definition isCol :: "char \<Rightarrow> bool" where
  "isCol c = (c \<in> set ''ABCDEFGHIJ'')"

definition isRow19 :: "char \<Rightarrow> bool" where
  "isRow19 c = (c \<in> set ''123456789'')"

text \<open>
  \<open>s.match(/[A-J](10|[1-9])/g) || []\<close>: the matches from left to right, without overlap.
  At a column letter the alternative \<open>10\<close> is tried before \<open>[1-9]\<close>; where neither
  fits the search goes on one character further.
\<close>

function matchRefs :: "string \<Rightarrow> string list" where
  "matchRefs [] = []"
| "matchRefs (c # cs) =
     (if isCol c then
        (if take 2 cs = ''10'' then [c, CHR ''1'', CHR ''0''] # matchRefs (drop 2 cs)
         else if cs \<noteq> [] \<and> isRow19 (hd cs) then [c, hd cs] # matchRefs (tl cs)
         else matchRefs cs)
      else matchRefs cs)"
  by pat_completeness auto
termination
  by (relation "measure length") auto

text \<open>
  \<open>s.replace(new RegExp(pat, 'g'), rep)\<close> for a pattern without metacharacters and a
  replacement without \<open>$\<close>: every occurrence of \<open>pat\<close>, from left to right and without
  overlap, becomes \<open>rep\<close>. (The empty pattern, which matches between all characters, does
  not occur: the patterns are reference tokens.)
\<close>

function replaceAll :: "string \<Rightarrow> string \<Rightarrow> string \<Rightarrow> string" where
  "replaceAll pat rep [] = (if pat = [] then rep else [])"
| "replaceAll pat rep (c # cs) =
     (if pat = [] then rep @ c # replaceAll pat rep cs
      else if startsWith (c # cs) pat then rep @ replaceAll pat rep (drop (length pat) (c # cs))
      else c # replaceAll pat rep cs)"
  by pat_completeness auto
termination
  by (relation "measure (\<lambda>(pat, rep, s). length s)") auto

text \<open>\<open>/^[0-9+\-*/().]+$/.test(s)\<close>\<close>

definition isExprChar :: "char \<Rightarrow> bool" where
  "isExprChar c = (c \<in> set ''0123456789+-*/().'')"

definition validChars :: "string \<Rightarrow> bool" where
  "validChars s = (s \<noteq> [] \<and> list_all isExprChar s)"

text \<open>The decimal digits of a natural number, as a template literal prints a row number.\<close>

function natToString :: "nat \<Rightarrow> string" where
  "natToString n =
     (if n < 10 then [char_of (48 + n)]
      else natToString (n div 10) @ [char_of (48 + n mod 10)])"
  by pat_completeness auto
termination
  by (relation "measure id") auto

declare natToString.simps [simp del]

section \<open>DependencyGraph\<close>

text \<open>
  A \<open>Set\<close> of cell identifiers is a list without repetition in insertion order, a
  \<open>Map\<close> from identifiers to such sets an association list in insertion order
  (\<^const>\<open>map_of\<close> looks a key up, \<^const>\<open>AList.update\<close> is \<open>set\<close>,
  \<^const>\<open>AList.delete\<close> is \<open>delete\<close>).
\<close>

type_synonym idset = "string list"

definition setAdd :: "string \<Rightarrow> idset \<Rightarrow> idset" where
  "setAdd x s = (if x \<in> set s then s else s @ [x])"

definition setDelete :: "string \<Rightarrow> idset \<Rightarrow> idset" where
  "setDelete x s = removeAll x s"

record DependencyGraph =
  graph :: "(string \<times> idset) list"
  reverseGraph :: "(string \<times> idset) list"

definition emptyGraph :: DependencyGraph where
  "emptyGraph = \<lparr>graph = [], reverseGraph = []\<rparr>"

text \<open>\<open>m.get(k) || new Set()\<close>\<close>

definition getOrEmpty :: "(string \<times> idset) list \<Rightarrow> string \<Rightarrow> idset" where
  "getOrEmpty m k = (case map_of m k of Some s \<Rightarrow> s | None \<Rightarrow> [])"

text \<open>\<open>if (!m.has(k)) m.set(k, new Set()); m.get(k).add(x)\<close>\<close>

definition addTo :: "(string \<times> idset) list \<Rightarrow> string \<Rightarrow> string \<Rightarrow> (string \<times> idset) list" where
  "addTo m k x =
     (let m1 = (if map_of m k = None then AList.update k [] m else m)
      in AList.update k (setAdd x (getOrEmpty m1 k)) m1)"

definition addDependency :: "DependencyGraph \<Rightarrow> string \<Rightarrow> string \<Rightarrow> DependencyGraph" where
  "addDependency g source target =
     \<lparr>graph = addTo (graph g) target source,
      reverseGraph = addTo (reverseGraph g) source target\<rparr>"

text \<open>\<open>this.graph.get(dep)?.delete(cell)\<close>\<close>

definition deleteFrom :: "string \<Rightarrow> string \<Rightarrow> (string \<times> idset) list \<Rightarrow> (string \<times> idset) list" where
  "deleteFrom cell dep m =
     (case map_of m dep of Some s \<Rightarrow> AList.update dep (setDelete cell s) m | None \<Rightarrow> m)"

definition removeDependencies :: "DependencyGraph \<Rightarrow> string \<Rightarrow> DependencyGraph" where
  "removeDependencies g cell =
     (case map_of (reverseGraph g) cell of
        Some dependencies \<Rightarrow>
          \<lparr>graph = fold (deleteFrom cell) dependencies (graph g),
           reverseGraph = AList.delete cell (reverseGraph g)\<rparr>
      | None \<Rightarrow> g)"

definition getDependents :: "DependencyGraph \<Rightarrow> string \<Rightarrow> string list" where
  "getDependents g cell = getOrEmpty (graph g) cell"

text \<open>Every identifier that occurs in a map, as a key or in a set.\<close>

definition keysOf :: "(string \<times> idset) list \<Rightarrow> string set" where
  "keysOf m = fst ` set m"

definition membersOf :: "(string \<times> idset) list \<Rightarrow> string set" where
  "membersOf m = (\<Union>kv \<in> set m. set (snd kv))"

lemma finite_keysOf [simp]: "finite (keysOf m)"
  by (simp add: keysOf_def)

lemma finite_membersOf [simp]: "finite (membersOf m)"
  by (simp add: membersOf_def)

lemma getOrEmpty_members: "x \<in> set (getOrEmpty m k) \<Longrightarrow> x \<in> membersOf m \<and> k \<in> keysOf m"
proof -
  assume x: "x \<in> set (getOrEmpty m k)"
  then obtain s where s: "map_of m k = Some s" and xs: "x \<in> set s"
    by (cases "map_of m k") (auto simp: getOrEmpty_def)
  from s have "(k, s) \<in> set m" by (rule map_of_SomeD)
  with xs show ?thesis
    by (force simp: membersOf_def keysOf_def)
qed

text \<open>
  \<open>detectCircular(startCell, visited = new Set())\<close>. Each recursive call receives its own
  copy of \<open>visited\<close>, so the set is passed by value; the \<open>for\<close> loop returns at the first
  precedent whose call answers true.
\<close>

function detectCircular :: "DependencyGraph \<Rightarrow> string \<Rightarrow> idset \<Rightarrow> bool" where
  "detectCircular g startCell visited =
     (if startCell \<in> set visited then True
      else list_ex (\<lambda>dep. detectCircular g dep (setAdd startCell visited))
             (getOrEmpty (reverseGraph g) startCell))"
  by pat_completeness auto
termination
proof (relation "measure (\<lambda>(g, c, visited). card (keysOf (reverseGraph g) - set visited))")
  show "wf (measure (\<lambda>(g, c, visited). card (keysOf (reverseGraph g) - set visited)))"
    by simp
next
  fix g :: DependencyGraph and startCell :: string and visited :: idset and dep :: string
  assume nv: "startCell \<notin> set visited"
    and dep: "dep \<in> set (getOrEmpty (reverseGraph g) startCell)"
  from dep have k: "startCell \<in> keysOf (reverseGraph g)"
    by (rule getOrEmpty_members [THEN conjunct2])
  have "keysOf (reverseGraph g) - set (setAdd startCell visited)
          \<subset> keysOf (reverseGraph g) - set visited"
    using nv k by (auto simp: setAdd_def)
  then have "card (keysOf (reverseGraph g) - set (setAdd startCell visited))
          < card (keysOf (reverseGraph g) - set visited)"
    by (intro psubset_card_mono) simp_all
  then show "((g, dep, setAdd startCell visited), (g, startCell, visited))
          \<in> measure (\<lambda>(g, c, visited). card (keysOf (reverseGraph g) - set visited))"
    by simp
qed

declare detectCircular.simps [simp del]


text \<open>
  \<open>getAllDependents(cell, result = new Set())\<close>. The one \<open>result\<close> set is shared by all
  recursive calls, so it is threaded through them. \<open>forEachDependent\<close> is the
  \<open>directDeps.forEach\<close> loop, whose body calls \<open>getAllDependents\<close> again.
\<close>

function forEachDependent :: "DependencyGraph \<Rightarrow> idset \<Rightarrow> idset \<Rightarrow> idset" where
  "forEachDependent g [] result = result"
| "forEachDependent g (dep # deps) result =
     (if dep \<in> set result then forEachDependent g deps result
      else forEachDependent g deps
             (forEachDependent g (getOrEmpty (graph g) dep) (setAdd dep result)))"
  by pat_completeness auto

lemma forEachDependent_grows:
  "forEachDependent_dom (g, deps, result) \<Longrightarrow> set result \<subseteq> set (forEachDependent g deps result)"
proof (induction g deps result rule: forEachDependent.pinduct)
  case (1 g result)
  then show ?case by (simp add: forEachDependent.psimps)
next
  case (2 g dep deps result)
  show ?case
  proof (cases "dep \<in> set result")
    case True
    with 2 show ?thesis by (simp add: forEachDependent.psimps)
  next
    case False
    have "set result \<subseteq> set (setAdd dep result)"
      by (auto simp: setAdd_def)
    also have "\<dots> \<subseteq> set (forEachDependent g (getOrEmpty (graph g) dep) (setAdd dep result))"
      using 2 False by simp
    also have "\<dots> \<subseteq> set (forEachDependent g deps
        (forEachDependent g (getOrEmpty (graph g) dep) (setAdd dep result)))"
      using 2 False by simp
    finally show ?thesis
      using 2(1) False by (simp add: forEachDependent.psimps)
  qed
qed

definition pending :: "DependencyGraph \<times> idset \<times> idset \<Rightarrow> string set" where
  "pending = (\<lambda>(g, deps, result). (membersOf (graph g) \<union> set deps) - set result)"

lemma finite_pending [simp]: "finite (pending a)"
  by (cases a) (simp add: pending_def)

termination forEachDependent
proof (relation "inv_image (less_than <*lex*> less_than) (\<lambda>a. (card (pending a), length (fst (snd a))))")
  show "wf (inv_image (less_than <*lex*> less_than)
          (\<lambda>a. (card (pending a), length (fst (snd a)))))"
    by (intro wf_inv_image wf_lex_prod wf_less_than)
next
  fix g :: DependencyGraph and dep :: string and deps result :: idset
  assume "dep \<in> set result"
  then have "pending (g, deps, result) = pending (g, dep # deps, result)"
    by (auto simp: pending_def)
  then show "((g, deps, result), (g, dep # deps, result))
      \<in> inv_image (less_than <*lex*> less_than)
          (\<lambda>a. (card (pending a), length (fst (snd a))))"
    by simp
next
  fix g :: DependencyGraph and dep :: string and deps result :: idset
  assume nr: "dep \<notin> set result"
  have "pending (g, getOrEmpty (graph g) dep, setAdd dep result)
          \<subset> pending (g, dep # deps, result)"
    using nr by (auto simp: pending_def setAdd_def dest: getOrEmpty_members)
  then have "card (pending (g, getOrEmpty (graph g) dep, setAdd dep result))
          < card (pending (g, dep # deps, result))"
    by (intro psubset_card_mono) simp_all
  then show "((g, getOrEmpty (graph g) dep, setAdd dep result), (g, dep # deps, result))
      \<in> inv_image (less_than <*lex*> less_than)
          (\<lambda>a. (card (pending a), length (fst (snd a))))"
    by simp
next
  fix g :: DependencyGraph and dep :: string and deps result :: idset
  assume nr: "dep \<notin> set result"
    and dom: "forEachDependent_dom (g, getOrEmpty (graph g) dep, setAdd dep result)"
  from forEachDependent_grows [OF dom]
  have "dep \<in> set (forEachDependent g (getOrEmpty (graph g) dep) (setAdd dep result))"
    and "set result \<subseteq> set (forEachDependent g (getOrEmpty (graph g) dep) (setAdd dep result))"
    by (auto simp: setAdd_def)
  then have "pending (g, deps, forEachDependent g (getOrEmpty (graph g) dep) (setAdd dep result))
          \<subset> pending (g, dep # deps, result)"
    using nr by (auto simp: pending_def)
  then have "card (pending (g, deps, forEachDependent g (getOrEmpty (graph g) dep) (setAdd dep result)))
          < card (pending (g, dep # deps, result))"
    by (intro psubset_card_mono) simp_all
  then show "((g, deps, forEachDependent g (getOrEmpty (graph g) dep) (setAdd dep result)),
        (g, dep # deps, result))
      \<in> inv_image (less_than <*lex*> less_than)
          (\<lambda>a. (card (pending a), length (fst (snd a))))"
    by simp
qed

definition getAllDependents :: "DependencyGraph \<Rightarrow> string \<Rightarrow> idset \<Rightarrow> idset" where
  "getAllDependents g cell result = forEachDependent g (getOrEmpty (graph g) cell) result"

section \<open>The JavaScript runtime\<close>

text \<open>
  The engine computes with the numbers of the JavaScript runtime (IEEE 754 doubles) through
  \<open>parseFloat\<close>, the conversion of a number to a string, \<open>isNaN\<close>, \<open>isFinite\<close> and the
  four arithmetic operators, and \<open>safeEvaluate\<close> falls back on compiling source text with
  \<open>Function\<close>. None of this is code of the engine. It is a parameter \<open>rt\<close> of the model,
  over a type \<open>'n\<close> of numbers, so that whatever is proved for every \<open>rt\<close> holds for the
  numbers of a real runtime too.

  \<open>runFunction rt src\<close> stands for \<open>Function(src)()\<close>: \<open>Inl msg\<close> when compiling or
  running throws an error with message \<open>msg\<close>, \<open>Inr n\<close> when it returns. A returned
  value that is not a number (the expression text admits regular expression literals) is
  seen by the engine only through \<open>isNaN\<close>, which is true of it; \<open>NaN rt\<close> stands for it.
\<close>

record 'n runtime =
  parseFloat :: "string \<Rightarrow> 'n"
  numToString :: "'n \<Rightarrow> string"
  isNaN :: "'n \<Rightarrow> bool"
  isFinite :: "'n \<Rightarrow> bool"
  NaN :: 'n
  numAdd :: "'n \<Rightarrow> 'n \<Rightarrow> 'n"
  numSub :: "'n \<Rightarrow> 'n \<Rightarrow> 'n"
  numMul :: "'n \<Rightarrow> 'n \<Rightarrow> 'n"
  numDiv :: "'n \<Rightarrow> 'n \<Rightarrow> 'n"
  runFunction :: "string \<Rightarrow> string + 'n"

text \<open>What \<open>pop()\<close> and \<open>stack[0]\<close> yield: a number, or \<open>undefined\<close> on an empty array.\<close>

datatype 'n jsval = Undefined | Number 'n

definition toNumber :: "'n runtime \<Rightarrow> 'n jsval \<Rightarrow> 'n" where
  "toNumber rt v = (case v of Undefined \<Rightarrow> NaN rt | Number n \<Rightarrow> n)"

section \<open>FormulaParser\<close>

datatype 'n token = TNum 'n | TOp char

text \<open>\<open>'0123456789.'.includes(char)\<close> and \<open>'+-*/()'.includes(char)\<close>, for a single character.\<close>

definition isNumberChar :: "char \<Rightarrow> bool" where
  "isNumberChar c = (c \<in> set ''0123456789.'')"

definition isOperatorChar :: "char \<Rightarrow> bool" where
  "isOperatorChar c = (c \<in> set ''+-*/()'')"

text \<open>\<open>tokenize(expr)\<close>: the \<open>for\<close> loop with its two variables, then the last number.\<close>

fun tokenizeLoop :: "'n runtime \<Rightarrow> string \<Rightarrow> 'n token list \<Rightarrow> string \<Rightarrow> 'n token list" where
  "tokenizeLoop rt [] tokens currentNumber =
     (if currentNumber \<noteq> [] then tokens @ [TNum (parseFloat rt currentNumber)] else tokens)"
| "tokenizeLoop rt (ch # expr) tokens currentNumber =
     (if isNumberChar ch then tokenizeLoop rt expr tokens (currentNumber @ [ch])
      else
        (let tokens1 = (if currentNumber \<noteq> [] then tokens @ [TNum (parseFloat rt currentNumber)]
                        else tokens);
             tokens2 = (if isOperatorChar ch then tokens1 @ [TOp ch] else tokens1)
         in tokenizeLoop rt expr tokens2 []))"

definition tokenize :: "'n runtime \<Rightarrow> string \<Rightarrow> 'n token list" where
  "tokenize rt expr = tokenizeLoop rt expr [] []"

text \<open>
  \<open>calculate(tokens)\<close>. Arrays are lists in array order: \<open>push\<close> appends, \<open>pop\<close> takes
  the last element. \<open>precedence[c]\<close> is \<open>undefined\<close> for any other character, and a
  comparison with \<open>undefined\<close> is false.
\<close>

definition precedence :: "char \<Rightarrow> nat option" where
  "precedence c =
     (if c = CHR ''+'' \<or> c = CHR ''-'' then Some 1
      else if c = CHR ''*'' \<or> c = CHR ''/'' then Some 2
      else None)"

definition precedenceGe :: "char \<Rightarrow> char \<Rightarrow> bool" where
  "precedenceGe c d =
     (case (precedence c, precedence d) of (Some p, Some q) \<Rightarrow> p \<ge> q | _ \<Rightarrow> False)"

text \<open>\<open>while (operators.length && operators[operators.length - 1] !== '(') output.push(operators.pop())\<close>\<close>

function popToParen :: "'n token list \<Rightarrow> string \<Rightarrow> 'n token list \<times> string" where
  "popToParen output operators =
     (if operators \<noteq> [] \<and> last operators \<noteq> CHR ''(''
      then popToParen (output @ [TOp (last operators)]) (butlast operators)
      else (output, operators))"
  by pat_completeness auto
termination
  by (relation "measure (\<lambda>(output, operators). length operators)") auto

declare popToParen.simps [simp del]

text \<open>The same loop with the third condition \<open>precedence[top] >= precedence[token]\<close>.\<close>

function popHigher :: "char \<Rightarrow> 'n token list \<Rightarrow> string \<Rightarrow> 'n token list \<times> string" where
  "popHigher token output operators =
     (if operators \<noteq> [] \<and> last operators \<noteq> CHR ''('' \<and> precedenceGe (last operators) token
      then popHigher token (output @ [TOp (last operators)]) (butlast operators)
      else (output, operators))"
  by pat_completeness auto
termination
  by (relation "measure (\<lambda>(token, output, operators). length operators)") auto

declare popHigher.simps [simp del]

text \<open>The body of the first \<open>tokens.forEach\<close>, on the pair of \<open>output\<close> and \<open>operators\<close>.\<close>

fun toRPN :: "'n token \<Rightarrow> 'n token list \<times> string \<Rightarrow> 'n token list \<times> string" where
  "toRPN (TNum n) (output, operators) = (output @ [TNum n], operators)"
| "toRPN (TOp token) (output, operators) =
     (if token = CHR ''('' then (output, operators @ [token])
      else if token = CHR '')'' then
        (case popToParen output operators of
           (output1, operators1) \<Rightarrow> (output1, butlast operators1))
      else
        (case popHigher token output operators of
           (output1, operators1) \<Rightarrow> (output1, operators1 @ [token])))"

text \<open>\<open>stack.pop()\<close>: the value and the rest.\<close>

definition pop :: "'n jsval list \<Rightarrow> 'n jsval \<times> 'n jsval list" where
  "pop stack = (if stack = [] then (Undefined, []) else (last stack, butlast stack))"

text \<open>
  The second \<open>forEach\<close>, which evaluates the postfix sequence; \<open>Inl msg\<close> is
  \<open>throw new Error(msg)\<close>.
\<close>

fun evalRPN :: "'n runtime \<Rightarrow> 'n token list \<Rightarrow> 'n jsval list \<Rightarrow> string + 'n jsval list" where
  "evalRPN rt [] stack = Inr stack"
| "evalRPN rt (TNum n # output) stack = evalRPN rt output (stack @ [Number n])"
| "evalRPN rt (TOp token # output) stack =
     (case pop stack of (b, stack1) \<Rightarrow>
      case pop stack1 of (a, stack2) \<Rightarrow>
        if token = CHR ''+'' then
          evalRPN rt output (stack2 @ [Number (numAdd rt (toNumber rt a) (toNumber rt b))])
        else if token = CHR ''-'' then
          evalRPN rt output (stack2 @ [Number (numSub rt (toNumber rt a) (toNumber rt b))])
        else if token = CHR ''*'' then
          evalRPN rt output (stack2 @ [Number (numMul rt (toNumber rt a) (toNumber rt b))])
        else if token = CHR ''/'' then
          evalRPN rt output (stack2 @ [Number (numDiv rt (toNumber rt a) (toNumber rt b))])
        else Inl ''Unknown operator'')"

definition calculate :: "'n runtime \<Rightarrow> 'n token list \<Rightarrow> string + 'n jsval" where
  "calculate rt tokens =
     (case fold toRPN tokens ([], []) of (output, operators) \<Rightarrow>
      case evalRPN rt (output @ map TOp (rev operators)) [] of
        Inl msg \<Rightarrow> Inl msg
      | Inr stack \<Rightarrow> Inr (if stack = [] then Undefined else hd stack))"

text \<open>
  \<open>safeEvaluate(expression)\<close>: an error thrown by \<open>calculate\<close> is caught, and the text is
  handed to \<open>Function\<close>; what that throws is not caught here.
\<close>

definition safeEvaluate :: "'n runtime \<Rightarrow> string \<Rightarrow> string + 'n jsval" where
  \<open>safeEvaluate rt expression =
     (let cleanExpr = filter isExprChar expression
      in case calculate rt (tokenize rt cleanExpr) of
           Inr v \<Rightarrow> Inr v
         | Inl msg \<Rightarrow>
             (case runFunction rt (''"use strict"; return ('' @ expression @ '')'') of
                Inl msg' \<Rightarrow> Inl msg'
              | Inr n \<Rightarrow> Inr (Number n)))\<close>

text \<open>
  The \<open>cellRefs.forEach\<close> of \<open>parse\<close>: each reference in turn is resolved and all its
  occurrences in the current text are replaced by the number's string; \<open>Inl msg\<close> is the
  thrown error. \<open>getCellValue\<close> answers \<open>None\<close> for \<open>undefined\<close>.
\<close>

fun substituteRefs ::
  "'n runtime \<Rightarrow> (string \<Rightarrow> 'n option) \<Rightarrow> string list \<Rightarrow> string \<Rightarrow> string + string" where
  "substituteRefs rt getCellValue [] evalExpression = Inr evalExpression"
| "substituteRefs rt getCellValue (ref # cellRefs) evalExpression =
     (case getCellValue ref of
        None \<Rightarrow> Inl (''Invalid reference: '' @ ref)
      | Some v \<Rightarrow>
          if isNaN rt v then Inl (''Invalid reference: '' @ ref)
          else substituteRefs rt getCellValue cellRefs
                 (replaceAll ref (numToString rt v) evalExpression))"

text \<open>The \<open>value\<close> of a parse result is the formula text, the string \<open>#ERROR\<close>, or a number.\<close>

datatype 'n pvalue = Str string | Num 'n

definition valueToString :: "'n runtime \<Rightarrow> 'n pvalue \<Rightarrow> string" where
  "valueToString rt v = (case v of Str s \<Rightarrow> s | Num n \<Rightarrow> numToString rt n)"

text \<open>
  \<open>FormulaParser.parse(formula, getCellValue)\<close>; the result is the pair of \<open>value\<close> and
  \<open>error\<close>. \<open>isNaN(undefined)\<close> is true, which is the case \<open>Inr Undefined\<close>.
\<close>

definition parse ::
  "'n runtime \<Rightarrow> string \<Rightarrow> (string \<Rightarrow> 'n option) \<Rightarrow> 'n pvalue \<times> string option" where
  "parse rt formula getCellValue =
     (if \<not> startsWith formula ''='' then (Str formula, None)
      else
        (let expression = trim (drop 1 formula)
         in if length expression = 0 then (Str ''#ERROR'', Some ''Empty formula'')
            else
              (let cellRefs = matchRefs expression
               in case substituteRefs rt getCellValue cellRefs expression of
                    Inl msg \<Rightarrow> (Str ''#ERROR'', Some msg)
                  | Inr substituted \<Rightarrow>
                      (let evalExpression = filter (\<lambda>c. \<not> isSpace c) substituted
                       in if \<not> validChars evalExpression
                          then (Str ''#ERROR'', Some ''Invalid characters in formula'')
                          else if length evalExpression = 0
                          then (Str ''#ERROR'', Some ''Empty expression after replacements'')
                          else
                            (case safeEvaluate rt evalExpression of
                               Inl msg \<Rightarrow> (Str ''#ERROR'', Some msg)
                             | Inr Undefined \<Rightarrow> (Str ''#ERROR'', Some ''Invalid result'')
                             | Inr (Number result) \<Rightarrow>
                                 if isNaN rt result \<or> \<not> isFinite rt result
                                 then (Str ''#ERROR'', Some ''Invalid result'')
                                 else (Num result, None))))))"

section \<open>The cell table\<close>

text \<open>
  A cell is \<open>{rawValue, formula, display, error}\<close> and the result of \<open>evaluateCell\<close> is
  \<open>{display, formula, error}\<close>; \<open>null\<close> is \<open>None\<close>. The table is the object \<open>cells\<close>,
  a map from identifiers to cells.
\<close>

record evalResult =
  display :: string
  formula :: string
  error :: "string option"

record cell = evalResult +
  rawValue :: string

type_synonym cells = "string \<rightharpoonup> cell"

definition getCellValue :: "'n runtime \<Rightarrow> cells \<Rightarrow> string \<Rightarrow> 'n option" where
  "getCellValue rt cells cellId =
     (case cells cellId of
        None \<Rightarrow> None
      | Some cell \<Rightarrow>
          if display cell = ''#CIRCULAR'' \<or> display cell = ''#ERROR'' then None
          else (let num = parseFloat rt (display cell)
                in if isNaN rt num then None else Some num))"

text \<open>
  \<open>evaluateCell(cellId, formula)\<close>. Both calls in \<open>updateCell\<close> pass a string, so the
  parameter is the string. The function reads the table \<open>cells\<close> of its closure and
  changes the graph, which is returned with the result.
\<close>

definition evaluateCell ::
  "'n runtime \<Rightarrow> cells \<Rightarrow> DependencyGraph \<Rightarrow> string \<Rightarrow> string \<Rightarrow> evalResult \<times> DependencyGraph" where
  "evaluateCell rt cells g cellId cellFormula =
     (let g1 = removeDependencies g cellId
      in if cellFormula = [] \<or> \<not> startsWith cellFormula ''=''
         then (\<lparr>display = cellFormula, formula = cellFormula, error = None\<rparr>, g1)
         else
           (let cellRefs = matchRefs cellFormula;
                g2 = fold (\<lambda>ref g. addDependency g cellId ref) cellRefs g1
            in if detectCircular g2 cellId []
               then (\<lparr>display = ''#CIRCULAR'', formula = cellFormula,
                      error = Some ''Circular reference detected''\<rparr>, g2)
               else
                 (case parse rt cellFormula (getCellValue rt cells) of
                    (v, err) \<Rightarrow>
                      if v = Str ''#ERROR''
                      then (\<lparr>display = ''#ERROR'', formula = cellFormula, error = err\<rparr>, g2)
                      else (\<lparr>display = valueToString rt v, formula = cellFormula,
                             error = None\<rparr>, g2))))"

subsection \<open>The identifiers in the graph after an evaluation\<close>

lemma membersOf_update: "membersOf (AList.update k v m) \<subseteq> membersOf m \<union> set v"
  by (induction m) (auto simp: membersOf_def)

lemma membersOf_deleteFrom: "membersOf (deleteFrom cell dep m) \<subseteq> membersOf m"
proof (cases "map_of m dep")
  case None
  then show ?thesis by (simp add: deleteFrom_def)
next
  case (Some s)
  then have "(dep, s) \<in> set m" by (rule map_of_SomeD)
  then have "set s \<subseteq> membersOf m" by (force simp: membersOf_def)
  then have "set (setDelete cell s) \<subseteq> membersOf m" by (auto simp: setDelete_def)
  with membersOf_update [of dep "setDelete cell s" m] Some show ?thesis
    by (auto simp: deleteFrom_def)
qed

lemma membersOf_fold_deleteFrom: "membersOf (fold (deleteFrom cell) deps m) \<subseteq> membersOf m"
proof (induction deps arbitrary: m)
  case Nil
  show ?case by simp
next
  case (Cons dep deps)
  have "membersOf (fold (deleteFrom cell) deps (deleteFrom cell dep m))
          \<subseteq> membersOf (deleteFrom cell dep m)"
    by (rule Cons.IH)
  also have "\<dots> \<subseteq> membersOf m" by (rule membersOf_deleteFrom)
  finally show ?case by simp
qed

lemma membersOf_removeDependencies:
  "membersOf (graph (removeDependencies g cell)) \<subseteq> membersOf (graph g)"
  by (cases "map_of (reverseGraph g) cell")
    (simp_all add: removeDependencies_def membersOf_fold_deleteFrom)

lemma getOrEmpty_subset: "set (getOrEmpty m k) \<subseteq> membersOf m"
  using getOrEmpty_members by blast

lemma membersOf_addTo: "membersOf (addTo m k x) \<subseteq> insert x (membersOf m)"
proof -
  define m1 where "m1 = (if map_of m k = None then AList.update k [] m else m)"
  have m1: "membersOf m1 \<subseteq> membersOf m"
    using membersOf_update [of k "[]" m] by (simp add: m1_def)
  have "membersOf (addTo m k x) \<subseteq> membersOf m1 \<union> set (setAdd x (getOrEmpty m1 k))"
    unfolding addTo_def Let_def m1_def [symmetric] by (rule membersOf_update)
  also have "\<dots> \<subseteq> insert x (membersOf m1)"
    using getOrEmpty_subset [of m1 k] by (auto simp: setAdd_def)
  finally show ?thesis using m1 by auto
qed

lemma membersOf_addDependencies:
  "membersOf (graph (fold (\<lambda>ref g. addDependency g cellId ref) refs g))
     \<subseteq> insert cellId (membersOf (graph g))"
proof (induction refs arbitrary: g)
  case Nil
  show ?case by auto
next
  case (Cons ref refs)
  have "membersOf (graph (fold (\<lambda>ref g. addDependency g cellId ref) refs (addDependency g cellId ref)))
          \<subseteq> insert cellId (membersOf (graph (addDependency g cellId ref)))"
    by (rule Cons.IH)
  also have "\<dots> \<subseteq> insert cellId (membersOf (graph g))"
    using membersOf_addTo [of "graph g" ref cellId] by (auto simp: addDependency_def)
  finally show ?case by simp
qed

lemma graph_evaluateCell:
  "membersOf (graph (snd (evaluateCell rt cells g cellId cellFormula)))
     \<subseteq> insert cellId (membersOf (graph g))"
proof -
  let ?g1 = "removeDependencies g cellId"
  let ?g2 = "fold (\<lambda>ref g. addDependency g cellId ref) (matchRefs cellFormula) ?g1"
  have g1: "membersOf (graph ?g1) \<subseteq> insert cellId (membersOf (graph g))"
    using membersOf_removeDependencies [of g cellId] by auto
  have g2: "membersOf (graph ?g2) \<subseteq> insert cellId (membersOf (graph g))"
    using membersOf_addDependencies [of cellId "matchRefs cellFormula" ?g1] g1 by auto
  have "snd (evaluateCell rt cells g cellId cellFormula) = ?g1
      \<or> snd (evaluateCell rt cells g cellId cellFormula) = ?g2"
    by (simp add: evaluateCell_def Let_def split: prod.split)
  with g1 g2 show ?thesis by auto
qed

lemma forEachDependent_subset:
  "set (forEachDependent g deps result) \<subseteq> set result \<union> set deps \<union> membersOf (graph g)"
proof (induction g deps result rule: forEachDependent.induct)
  case (1 g result)
  show ?case by simp
next
  case (2 g dep deps result)
  show ?case
  proof (cases "dep \<in> set result")
    case True
    with 2 show ?thesis by auto
  next
    case False
    with 2 getOrEmpty_subset [of "graph g" dep] show ?thesis
      by (auto simp: setAdd_def)
  qed
qed

lemma getAllDependents_subset:
  "set (getAllDependents g cell result) \<subseteq> set result \<union> membersOf (graph g)"
  using forEachDependent_subset [of g "getOrEmpty (graph g) cell" result]
    getOrEmpty_subset [of "graph g" cell]
  by (auto simp: getAllDependents_def)

section \<open>updateCell\<close>

text \<open>The identifiers that the recalculation loop can still visit.\<close>

definition todo :: "DependencyGraph \<Rightarrow> idset \<Rightarrow> string list \<Rightarrow> string set" where
  "todo g visited queue = (membersOf (graph g) \<union> set queue) - set visited"

lemma finite_todo [simp]: "finite (todo g visited queue)"
  by (simp add: todo_def)

lemma todo_skip: "d \<in> set visited \<Longrightarrow> todo g visited queue = todo g visited (d # queue)"
  by (auto simp: todo_def)

lemma todo_visit:
  assumes "d \<notin> set visited"
    and "membersOf (graph g') \<subseteq> insert d (membersOf (graph g))"
    and "set queue' \<subseteq> set queue \<union> membersOf (graph g')"
  shows "card (todo g' (setAdd d visited) queue') < card (todo g visited (d # queue))"
proof -
  have "todo g' (setAdd d visited) queue' \<subset> todo g visited (d # queue)"
    using assms by (auto simp: todo_def setAdd_def)
  then show ?thesis by (intro psubset_card_mono) simp_all
qed

text \<open>
  The \<open>while (recalcQueue.length > 0)\<close> loop of \<open>updateCell\<close>. \<open>cells\<close> is the table in
  the closure of \<open>evaluateCell\<close>, \<open>newCells\<close> the copy that the updater fills. The list
  \<open>evaluated\<close> is not a variable of the source: it records, in order, the cells for which
  the loop calls \<open>evaluateCell\<close>.
\<close>

function recalc ::
  "'n runtime \<Rightarrow> cells \<Rightarrow> cells \<Rightarrow> DependencyGraph \<Rightarrow> idset \<Rightarrow> string list \<Rightarrow> string list
     \<Rightarrow> cells \<times> DependencyGraph \<times> string list" where
  "recalc rt cells newCells g visited evaluated [] = (newCells, g, evaluated)"
| "recalc rt cells newCells g visited evaluated (dependentId # recalcQueue) =
     (if dependentId \<in> set visited
      then recalc rt cells newCells g visited evaluated recalcQueue
      else
        (case newCells dependentId of
           None \<Rightarrow> recalc rt cells newCells g (setAdd dependentId visited) evaluated recalcQueue
         | Some dependentCell \<Rightarrow>
             if formula dependentCell = []
             then recalc rt cells newCells g (setAdd dependentId visited) evaluated recalcQueue
             else
               (case evaluateCell rt cells g dependentId (formula dependentCell) of
                  (result, g') \<Rightarrow>
                    recalc rt cells
                      (newCells(dependentId \<mapsto>
                         dependentCell\<lparr>display := display result, error := error result\<rparr>))
                      g' (setAdd dependentId visited) (evaluated @ [dependentId])
                      (recalcQueue @
                         filter (\<lambda>dep. dep \<notin> set (setAdd dependentId visited))
                           (getAllDependents g' dependentId [])))))"
  by pat_completeness auto
termination
proof (relation "inv_image (less_than <*lex*> less_than)
    (\<lambda>(rt, cells, newCells, g, visited, evaluated, queue).
       (card (todo g visited queue), length queue))", goal_cases)
  case 1
  show ?case by (intro wf_inv_image wf_lex_prod wf_less_than)
next
  case (2 rt cells newCells g visited evaluated dependentId recalcQueue)
  then show ?case by (simp add: todo_skip [symmetric])
next
  case (3 rt cells newCells g visited evaluated dependentId recalcQueue)
  then have "card (todo g (setAdd dependentId visited) recalcQueue)
      < card (todo g visited (dependentId # recalcQueue))"
    by (intro todo_visit) auto
  then show ?case by simp
next
  case (4 rt cells newCells g visited evaluated dependentId recalcQueue dependentCell)
  then have "card (todo g (setAdd dependentId visited) recalcQueue)
      < card (todo g visited (dependentId # recalcQueue))"
    by (intro todo_visit) auto
  then show ?case by simp
next
  case (5 rt cells newCells g visited evaluated dependentId recalcQueue dependentCell result g')
  from 5 have g': "g' = snd (evaluateCell rt cells g dependentId (formula dependentCell))"
    by (metis snd_conv)
  have "card (todo g' (setAdd dependentId visited)
          (recalcQueue @ filter (\<lambda>dep. dep \<notin> set (setAdd dependentId visited))
             (getAllDependents g' dependentId [])))
        < card (todo g visited (dependentId # recalcQueue))"
  proof (rule todo_visit)
    show "dependentId \<notin> set visited" using 5 by simp
    show "membersOf (graph g') \<subseteq> insert dependentId (membersOf (graph g))"
      unfolding g' by (rule graph_evaluateCell)
    show "set (recalcQueue @ filter (\<lambda>dep. dep \<notin> set (setAdd dependentId visited))
             (getAllDependents g' dependentId [])) \<subseteq> set recalcQueue \<union> membersOf (graph g')"
      using getAllDependents_subset [of g' dependentId "[]"] by auto
  qed
  then show ?case by simp
qed

text \<open>
  \<open>updateCell(cellId, rawValue)\<close>: the updater passed to \<open>setCells\<close>, applied to the
  table \<open>prev\<close>. \<open>cells\<close> is the table that \<open>evaluateCell\<close> and \<open>getCellValue\<close> captured
  when the callbacks were created.
\<close>

definition updateCell ::
  "'n runtime \<Rightarrow> cells \<Rightarrow> DependencyGraph \<Rightarrow> cells \<Rightarrow> string \<Rightarrow> string
     \<Rightarrow> cells \<times> DependencyGraph \<times> string list" where
  "updateCell rt cells g prev cellId rawText =
     (case evaluateCell rt cells g cellId rawText of
        (cellResult, g1) \<Rightarrow>
          (let newCells = prev(cellId \<mapsto>
                 \<lparr>display = display cellResult, formula = formula cellResult,
                  error = error cellResult, rawValue = rawText\<rparr>);
               dependents = getAllDependents g1 cellId []
           in recalc rt cells newCells g1 [cellId] [] dependents))"

text \<open>
  The engine's state between two edits: the table kept by \<open>useState\<close> and the graph
  kept by \<open>useRef\<close>.
\<close>

record sheet =
  sheetCells :: cells
  sheetGraph :: DependencyGraph

text \<open>
  An edit committed from the grid. \<open>getCellValue\<close>, \<open>evaluateCell\<close> and \<open>updateCell\<close>
  are \<open>useCallback\<close> closures that are created anew whenever \<open>cells\<close> changes, so the
  grid calls the \<open>updateCell\<close> of the latest render, whose \<open>evaluateCell\<close> and
  \<open>getCellValue\<close> have captured that render's table; the updater then runs on the same
  table as \<open>prev\<close>. So both tables of \<open>updateCell\<close> are the current one. What the
  updater writes goes to its copy \<open>newCells\<close>, which the closures do not read.
\<close>

definition applyEdit :: "'n runtime \<Rightarrow> sheet \<Rightarrow> string \<Rightarrow> string \<Rightarrow> sheet" where
  "applyEdit rt st cellId rawText =
     (case updateCell rt (sheetCells st) (sheetGraph st) (sheetCells st) cellId rawText of
        (newCells, g, evaluated) \<Rightarrow> \<lparr>sheetCells = newCells, sheetGraph = g\<rparr>)"

text \<open>The cells that the edit re-evaluates in its recalculation loop, in order.\<close>

definition reevaluated :: "'n runtime \<Rightarrow> sheet \<Rightarrow> string \<Rightarrow> string \<Rightarrow> string list" where
  "reevaluated rt st cellId rawText =
     (case updateCell rt (sheetCells st) (sheetGraph st) (sheetCells st) cellId rawText of
        (newCells, g, evaluated) \<Rightarrow> evaluated)"

text \<open>A sequence of edits, each given as the pair of \<open>cellId\<close> and raw text.\<close>

definition applyEdits :: "'n runtime \<Rightarrow> sheet \<Rightarrow> (string \<times> string) list \<Rightarrow> sheet" where
  "applyEdits rt st edits = foldl (\<lambda>st (cellId, rawText). applyEdit rt st cellId rawText) st edits"

text \<open>The initial table: the hundred cells \<open>A1\<close> to \<open>J10\<close>, all empty; and no edges.\<close>

definition ROWS :: nat where
  "ROWS = 10"

definition COL_LABELS :: string where
  "COL_LABELS = ''ABCDEFGHIJ''"

definition cellIds :: "string list" where
  "cellIds = concat (map (\<lambda>col. map (\<lambda>row. col # natToString row) [1 ..< Suc ROWS]) COL_LABELS)"

definition emptyCell :: cell where
  "emptyCell = \<lparr>display = [], formula = [], error = None, rawValue = []\<rparr>"

definition initialCells :: cells where
  "initialCells = (\<lambda>cellId. if cellId \<in> set cellIds then Some emptyCell else None)"

definition initialSheet :: sheet where
  "initialSheet = \<lparr>sheetCells = initialCells, sheetGraph = emptyGraph\<rparr>"

text \<open>What the grid shows for a cell.\<close>

definition displayOf :: "sheet \<Rightarrow> string \<Rightarrow> string option" where
  "displayOf st cellId = map_option display (sheetCells st cellId)"

definition errorOf :: "sheet \<Rightarrow> string \<Rightarrow> string option option" where
  "errorOf st cellId = map_option error (sheetCells st cellId)"

section \<open>A runtime for the examples\<close>

text \<open>
  To run the engine on concrete inputs the runtime has to be given. \<open>decimalRuntime\<close>
  computes with exact rational numbers, \<open>NaN\<close> and the two infinities: \<open>parseFloat\<close> reads
  the longest prefix that is a decimal literal (after white space, with sign, fraction
  and exponent), the conversion to a string prints the decimal expansion (up to twenty
  fraction digits), and the operators are exact. It differs from a real runtime where
  doubles round, in the exponent notation of very large and very small numbers and in
  the sign of zero; on the integers of the examples below it computes what a real
  runtime computes. Its \<open>Function\<close> always fails to compile; the examples never reach
  it.
\<close>

datatype jsnum = NotANumber | PosInfinity | NegInfinity | Finite rat

definition isDigit :: "char \<Rightarrow> bool" where
  "isDigit c = (c \<in> set ''0123456789'')"

definition digitsValue :: "string \<Rightarrow> nat" where
  "digitsValue ds = foldl (\<lambda>a c. 10 * a + (of_char c - 48)) 0 ds"

definition scale10 :: "rat \<Rightarrow> int \<Rightarrow> rat" where
  "scale10 q e = (if e \<ge> 0 then q * 10 ^ nat e else q / 10 ^ nat (- e))"

definition exponentPart :: "string \<Rightarrow> int" where
  "exponentPart s =
     (if s \<noteq> [] \<and> (hd s = CHR ''e'' \<or> hd s = CHR ''E'') then
        (let t = tl s;
             neg = (t \<noteq> [] \<and> hd t = CHR ''-'');
             u = (if t \<noteq> [] \<and> (hd t = CHR ''-'' \<or> hd t = CHR ''+'') then tl t else t);
             ds = takeWhile isDigit u
         in if ds = [] then 0
            else if neg then - int (digitsValue ds) else int (digitsValue ds))
      else 0)"

definition decimalParseFloat :: "string \<Rightarrow> jsnum" where
  "decimalParseFloat s =
     (let s0 = dropWhile isSpace s;
          neg = (s0 \<noteq> [] \<and> hd s0 = CHR ''-'');
          s1 = (if s0 \<noteq> [] \<and> (hd s0 = CHR ''-'' \<or> hd s0 = CHR ''+'') then tl s0 else s0)
      in if startsWith s1 ''Infinity'' then (if neg then NegInfinity else PosInfinity)
         else
           (let ip = takeWhile isDigit s1;
                r1 = dropWhile isDigit s1;
                hasDot = (r1 \<noteq> [] \<and> hd r1 = CHR ''.'');
                fp = (if hasDot then takeWhile isDigit (tl r1) else []);
                r2 = (if hasDot then dropWhile isDigit (tl r1) else r1)
            in if ip = [] \<and> fp = [] then NotANumber
               else
                 (let mantissa = of_nat (digitsValue (ip @ fp)) / 10 ^ length fp;
                      q = scale10 mantissa (exponentPart r2)
                  in Finite (if neg then - q else q))))"

fun fractionDigits :: "nat \<Rightarrow> rat \<Rightarrow> string" where
  "fractionDigits 0 r = []"
| "fractionDigits (Suc k) r =
     (if r = 0 then []
      else char_of (48 + nat \<lfloor>r * 10\<rfloor>) # fractionDigits k (r * 10 - of_int \<lfloor>r * 10\<rfloor>))"

definition positiveToString :: "rat \<Rightarrow> string" where
  "positiveToString q =
     (let r = q - of_int \<lfloor>q\<rfloor>
      in natToString (nat \<lfloor>q\<rfloor>) @ (if r = 0 then [] else CHR ''.'' # fractionDigits 20 r))"

definition decimalToString :: "jsnum \<Rightarrow> string" where
  "decimalToString x =
     (case x of
        NotANumber \<Rightarrow> ''NaN''
      | PosInfinity \<Rightarrow> ''Infinity''
      | NegInfinity \<Rightarrow> ''-Infinity''
      | Finite q \<Rightarrow> if q < 0 then CHR ''-'' # positiveToString (- q) else positiveToString q)"

definition decimalNeg :: "jsnum \<Rightarrow> jsnum" where
  "decimalNeg x =
     (case x of
        NotANumber \<Rightarrow> NotANumber
      | PosInfinity \<Rightarrow> NegInfinity
      | NegInfinity \<Rightarrow> PosInfinity
      | Finite q \<Rightarrow> Finite (- q))"

definition signed :: "bool \<Rightarrow> jsnum" where
  "signed negative = (if negative then NegInfinity else PosInfinity)"

fun decimalAdd :: "jsnum \<Rightarrow> jsnum \<Rightarrow> jsnum" where
  "decimalAdd (Finite a) (Finite b) = Finite (a + b)"
| "decimalAdd NotANumber y = NotANumber"
| "decimalAdd x NotANumber = NotANumber"
| "decimalAdd PosInfinity NegInfinity = NotANumber"
| "decimalAdd NegInfinity PosInfinity = NotANumber"
| "decimalAdd (Finite a) y = y"
| "decimalAdd x y = x"

fun decimalMul :: "jsnum \<Rightarrow> jsnum \<Rightarrow> jsnum" where
  "decimalMul (Finite a) (Finite b) = Finite (a * b)"
| "decimalMul NotANumber y = NotANumber"
| "decimalMul x NotANumber = NotANumber"
| "decimalMul (Finite a) y = (if a = 0 then NotANumber else signed ((a < 0) \<noteq> (y = NegInfinity)))"
| "decimalMul x (Finite b) = (if b = 0 then NotANumber else signed ((b < 0) \<noteq> (x = NegInfinity)))"
| "decimalMul x y = signed ((x = NegInfinity) \<noteq> (y = NegInfinity))"

fun decimalDiv :: "jsnum \<Rightarrow> jsnum \<Rightarrow> jsnum" where
  "decimalDiv (Finite a) (Finite b) =
     (if b = 0 then (if a = 0 then NotANumber else signed (a < 0)) else Finite (a / b))"
| "decimalDiv NotANumber y = NotANumber"
| "decimalDiv x NotANumber = NotANumber"
| "decimalDiv (Finite a) y = Finite 0"
| "decimalDiv x (Finite b) = signed ((b < 0) \<noteq> (x = NegInfinity))"
| "decimalDiv x y = NotANumber"

definition decimalRuntime :: "jsnum runtime" where
  "decimalRuntime =
     \<lparr>parseFloat = decimalParseFloat,
      numToString = decimalToString,
      isNaN = (\<lambda>x. x = NotANumber),
      isFinite = (\<lambda>x. case x of Finite q \<Rightarrow> True | _ \<Rightarrow> False),
      NaN = NotANumber,
      numAdd = decimalAdd,
      numSub = (\<lambda>x y. decimalAdd x (decimalNeg y)),
      numMul = decimalMul,
      numDiv = decimalDiv,
      runFunction = (\<lambda>src. Inl ''SyntaxError'')\<rparr>"

section \<open>Edges\<close>

text \<open>
  The two indexes read as edge sets: \<open>precedents g x\<close> are the cells that \<open>x\<close> depends on
  according to \<open>reverseGraph\<close>, \<open>dependentsOf g y\<close> the cells that depend on \<open>y\<close>
  according to \<open>graph\<close>.
\<close>

definition precedents :: "DependencyGraph \<Rightarrow> string \<Rightarrow> string set" where
  "precedents g x = set (getOrEmpty (reverseGraph g) x)"

definition dependentsOf :: "DependencyGraph \<Rightarrow> string \<Rightarrow> string set" where
  "dependentsOf g y = set (getOrEmpty (graph g) y)"

lemma getOrEmpty_update:
  "getOrEmpty (AList.update k v m) k' = (if k' = k then v else getOrEmpty m k')"
  by (simp add: getOrEmpty_def update_conv')

lemma getOrEmpty_delete:
  "getOrEmpty (AList.delete k m) k' = (if k' = k then [] else getOrEmpty m k')"
  by (simp add: getOrEmpty_def delete_conv')

lemma getOrEmpty_addTo:
  "getOrEmpty (addTo m k x) k' = (if k' = k then setAdd x (getOrEmpty m k) else getOrEmpty m k')"
  by (simp add: addTo_def Let_def getOrEmpty_update) (simp add: getOrEmpty_def)

lemma getOrEmpty_deleteFrom:
  "getOrEmpty (deleteFrom cell dep m) k =
     (if k = dep then setDelete cell (getOrEmpty m dep) else getOrEmpty m k)"
  by (cases "map_of m dep")
    (simp_all add: deleteFrom_def getOrEmpty_update, simp_all add: getOrEmpty_def setDelete_def)

lemma getOrEmpty_fold_deleteFrom:
  "set (getOrEmpty (fold (deleteFrom cell) deps m) k) =
     (if k \<in> set deps then set (getOrEmpty m k) - {cell} else set (getOrEmpty m k))"
proof (induction deps arbitrary: m)
  case Nil
  show ?case by simp
next
  case (Cons dep deps)
  show ?case
    by (auto simp: Cons.IH getOrEmpty_deleteFrom setDelete_def)
qed

lemma precedents_removeDependencies:
  "precedents (removeDependencies g cell) x = (if x = cell then {} else precedents g x)"
  by (cases "map_of (reverseGraph g) cell")
    (auto simp: precedents_def removeDependencies_def getOrEmpty_delete, simp add: getOrEmpty_def)

lemma dependentsOf_removeDependencies:
  "dependentsOf (removeDependencies g cell) y =
     (if y \<in> precedents g cell then dependentsOf g y - {cell} else dependentsOf g y)"
proof (cases "map_of (reverseGraph g) cell")
  case None
  then show ?thesis
    by (simp add: removeDependencies_def precedents_def getOrEmpty_def)
next
  case (Some deps)
  then show ?thesis
    by (simp add: removeDependencies_def precedents_def dependentsOf_def
        getOrEmpty_fold_deleteFrom) (simp add: getOrEmpty_def)
qed

lemma precedents_addDependency:
  "precedents (addDependency g source target) x =
     (if x = source then insert target (precedents g x) else precedents g x)"
  by (auto simp: precedents_def addDependency_def getOrEmpty_addTo setAdd_def)

lemma dependentsOf_addDependency:
  "dependentsOf (addDependency g source target) y =
     (if y = target then insert source (dependentsOf g y) else dependentsOf g y)"
  by (auto simp: dependentsOf_def addDependency_def getOrEmpty_addTo setAdd_def)

lemma precedents_addDependencies:
  "precedents (fold (\<lambda>ref g. addDependency g cellId ref) refs g) x =
     (if x = cellId then precedents g x \<union> set refs else precedents g x)"
  by (induction refs arbitrary: g) (auto simp: precedents_addDependency)

lemma dependentsOf_addDependencies:
  "dependentsOf (fold (\<lambda>ref g. addDependency g cellId ref) refs g) y =
     (if y \<in> set refs then insert cellId (dependentsOf g y) else dependentsOf g y)"
  by (induction refs arbitrary: g) (auto simp: dependentsOf_addDependency)

text \<open>The references of a text as \<open>evaluateCell\<close> registers them: none for a literal.\<close>

definition refsOf :: "string \<Rightarrow> string list" where
  "refsOf cellFormula =
     (if cellFormula = [] \<or> \<not> startsWith cellFormula ''='' then [] else matchRefs cellFormula)"

lemma snd_evaluateCell:
  "snd (evaluateCell rt cells g cellId cellFormula) =
     fold (\<lambda>ref g. addDependency g cellId ref) (refsOf cellFormula) (removeDependencies g cellId)"
  by (simp add: evaluateCell_def refsOf_def Let_def split: prod.split)

lemma precedents_evaluateCell:
  "precedents (snd (evaluateCell rt cells g cellId cellFormula)) x =
     (if x = cellId then set (refsOf cellFormula) else precedents g x)"
  by (simp add: snd_evaluateCell precedents_addDependencies precedents_removeDependencies)

lemma dependentsOf_evaluateCell:
  "dependentsOf (snd (evaluateCell rt cells g cellId cellFormula)) y =
     (if y \<in> precedents g cellId then dependentsOf g y - {cellId} else dependentsOf g y)
       \<union> (if y \<in> set (refsOf cellFormula) then {cellId} else {})"
  by (simp add: snd_evaluateCell dependentsOf_addDependencies dependentsOf_removeDependencies)

lemma formula_evaluateCell [simp]:
  "formula (fst (evaluateCell rt cells g cellId cellFormula)) = cellFormula"
  by (simp add: evaluateCell_def Let_def split: prod.split)

text \<open>
  An invariant rule for the recalculation loop: a property of the loop's variables that
  holds at the start and is kept by each of the four ways through the loop body holds,
  for some \<open>visited\<close> set and the empty queue, of what the loop returns.
\<close>

lemma recalc_rule:
  assumes init: "I newCells g visited evaluated queue"
    and skip: "\<And>nc g v e d q. I nc g v e (d # q) \<Longrightarrow> d \<in> set v \<Longrightarrow> I nc g v e q"
    and absent: "\<And>nc g v e d q. I nc g v e (d # q) \<Longrightarrow> d \<notin> set v \<Longrightarrow> nc d = None
        \<Longrightarrow> I nc g (setAdd d v) e q"
    and literal: "\<And>nc g v e d q c. I nc g v e (d # q) \<Longrightarrow> d \<notin> set v \<Longrightarrow> nc d = Some c
        \<Longrightarrow> formula c = [] \<Longrightarrow> I nc g (setAdd d v) e q"
    and eval: "\<And>nc g v e d q c r g'. I nc g v e (d # q) \<Longrightarrow> d \<notin> set v \<Longrightarrow> nc d = Some c
        \<Longrightarrow> formula c \<noteq> [] \<Longrightarrow> evaluateCell rt cells g d (formula c) = (r, g')
        \<Longrightarrow> I (nc(d \<mapsto> c\<lparr>display := display r, error := error r\<rparr>)) g' (setAdd d v) (e @ [d])
              (q @ filter (\<lambda>dep. dep \<notin> set (setAdd d v)) (getAllDependents g' d []))"
  shows "\<exists>nc' g' v' e'. recalc rt cells newCells g visited evaluated queue = (nc', g', e')
           \<and> I nc' g' v' e' []"
proof -
  have "rt' = rt \<Longrightarrow> cells' = cells \<Longrightarrow> I newCells g visited evaluated queue \<Longrightarrow>
      \<exists>nc' g' v' e'. recalc rt' cells' newCells g visited evaluated queue = (nc', g', e')
           \<and> I nc' g' v' e' []" for rt' cells'
  proof (induction rt' cells' newCells g visited evaluated queue rule: recalc.induct)
    case (1 rt' cells' newCells g visited evaluated)
    then show ?case by auto
  next
    case (2 rt' cells' newCells g visited evaluated dependentId recalcQueue)
    note I = \<open>I newCells g visited evaluated (dependentId # recalcQueue)\<close>
    note eqs = \<open>rt' = rt\<close> \<open>cells' = cells\<close>
    show ?case
    proof (cases "dependentId \<in> set visited")
      case True
      from "2.IH"(1) [OF True eqs skip [OF I True]] True show ?thesis by simp
    next
      case nv: False
      show ?thesis
      proof (cases "newCells dependentId")
        case None
        from "2.IH"(2) [OF nv None eqs absent [OF I nv None]] nv None show ?thesis by simp
      next
        case (Some c)
        show ?thesis
        proof (cases "formula c = []")
          case True
          from "2.IH"(3) [OF nv Some True eqs literal [OF I nv Some True]] nv Some True
          show ?thesis by simp
        next
          case False
          obtain r g' where ev: "evaluateCell rt cells g dependentId (formula c) = (r, g')"
            by (cases "evaluateCell rt cells g dependentId (formula c)")
          from ev have ev': "(r, g') = evaluateCell rt' cells' g dependentId (formula c)"
            by (simp add: eqs)
          have step: "recalc rt' cells' newCells g visited evaluated (dependentId # recalcQueue)
              = recalc rt' cells'
                  (newCells(dependentId \<mapsto> c\<lparr>display := display r, error := error r\<rparr>))
                  g' (setAdd dependentId visited) (evaluated @ [dependentId])
                  (recalcQueue @ filter (\<lambda>dep. dep \<notin> set (setAdd dependentId visited))
                     (getAllDependents g' dependentId []))"
            using nv Some False ev eqs by simp
          show ?thesis
            unfolding step
            by (rule "2.IH"(4) [OF nv Some False ev' eqs eval [OF I nv Some False ev]])
        qed
      qed
    qed
  qed
  from this [OF refl refl init] show ?thesis .
qed

lemma refsOf_formula: "startsWith cellFormula ''='' \<Longrightarrow> refsOf cellFormula = matchRefs cellFormula"
  by (auto simp: refsOf_def startsWith_def)

lemma fst_evaluateCell_formula:
  assumes "startsWith cellFormula ''=''"
  shows "fst (evaluateCell rt cells g cellId cellFormula) =
    (if detectCircular (snd (evaluateCell rt cells g cellId cellFormula)) cellId []
     then \<lparr>display = ''#CIRCULAR'', formula = cellFormula,
           error = Some ''Circular reference detected''\<rparr>
     else (case parse rt cellFormula (getCellValue rt cells) of
             (v, err) \<Rightarrow>
               if v = Str ''#ERROR''
               then \<lparr>display = ''#ERROR'', formula = cellFormula, error = err\<rparr>
               else \<lparr>display = valueToString rt v, formula = cellFormula, error = None\<rparr>))"
proof -
  from assms have "cellFormula \<noteq> []" by (auto simp: startsWith_def)
  with assms show ?thesis
    by (simp add: evaluateCell_def Let_def split: prod.split)
qed

section \<open>Edits\<close>

lemma recalc_keeps_visited:
  assumes "x \<in> set visited"
  shows "fst (recalc rt cells newCells g visited evaluated queue) x = newCells x"
proof -
  have "\<exists>nc' g' v' e'. recalc rt cells newCells g visited evaluated queue = (nc', g', e')
           \<and> (\<lambda>(nc :: cells) (g :: DependencyGraph) (v :: idset) (e :: string list)
                 (q :: string list). x \<in> set v \<and> nc x = newCells x) nc' g' v' e' []"
    by (rule recalc_rule) (use assms in \<open>auto simp: setAdd_def\<close>)
  then show ?thesis by auto
qed

lemma applyEdit_edited_cell:
  "sheetCells (applyEdit rt st cellId rawText) cellId =
     Some \<lparr>display = display (fst (evaluateCell rt (sheetCells st) (sheetGraph st) cellId rawText)),
           formula = rawText,
           error = error (fst (evaluateCell rt (sheetCells st) (sheetGraph st) cellId rawText)),
           rawValue = rawText\<rparr>"
proof -
  obtain r g1 where ev: "evaluateCell rt (sheetCells st) (sheetGraph st) cellId rawText = (r, g1)"
    by (cases "evaluateCell rt (sheetCells st) (sheetGraph st) cellId rawText")
  have fr: "formula r = rawText"
    using formula_evaluateCell [of rt "sheetCells st" "sheetGraph st" cellId rawText]
    by (simp add: ev)
  let ?nc = "(sheetCells st)(cellId \<mapsto>
      \<lparr>display = display r, formula = formula r, error = error r, rawValue = rawText\<rparr>)"
  have "fst (recalc rt (sheetCells st) ?nc g1 [cellId] [] (getAllDependents g1 cellId [])) cellId
      = ?nc cellId"
    by (rule recalc_keeps_visited) simp
  then show ?thesis
    by (cases "recalc rt (sheetCells st) ?nc g1 [cellId] [] (getAllDependents g1 cellId [])")
      (simp add: applyEdit_def updateCell_def ev Let_def fr)
qed

lemma applyEdits_append:
  "applyEdits rt st (edits @ [(cellId, rawText)]) = applyEdit rt (applyEdits rt st edits) cellId rawText"
  by (simp add: applyEdits_def)

section \<open>Example sheets\<close>

text \<open>
  The sheet of the component's own example: \<open>A1\<close> holds \<open>5\<close>, \<open>B1\<close> holds \<open>=A1+3\<close> and
  \<open>C1\<close> holds \<open>=B1*2\<close>, entered in this order.
\<close>

definition exampleSheet :: sheet where
  "exampleSheet =
     applyEdits decimalRuntime initialSheet
       [(''A1'', ''5''), (''B1'', ''=A1+3''), (''C1'', ''=B1*2'')]"

lemma exampleSheet_displays:
  "map (displayOf exampleSheet) [''A1'', ''B1'', ''C1''] = [Some ''5'', Some ''8'', Some ''16'']"
  by code_simp

text \<open>Its first two edits only.\<close>

definition twoCellSheet :: sheet where
  "twoCellSheet = applyEdits decimalRuntime initialSheet [(''A1'', ''5''), (''B1'', ''=A1+3'')]"

text \<open>The initial sheet after \<open>=A1+3\<close> is entered in \<open>B1\<close>, and after \<open>=A1\<close> is.\<close>

definition erroredSheet :: sheet where
  "erroredSheet = applyEdit decimalRuntime initialSheet ''B1'' ''=A1+3''"


section \<open>Recalculation of dependents\<close>

text \<open>
  C1, which the code does not meet. On the example sheet the edit of \<open>A1\<close> to \<open>10\<close>
  re-evaluates \<open>B1\<close> and \<open>C1\<close>, once each, but \<open>evaluateCell\<close> resolves their
  references in the table captured before the edit: \<open>B1\<close> still shows \<open>8\<close> and \<open>C1\<close>
  still shows \<open>16\<close>, not \<open>13\<close> and \<open>26\<close>.
\<close>

theorem dependents_read_stale_table:
  "reevaluated decimalRuntime exampleSheet ''A1'' ''10'' = [''B1'', ''C1'']
   \<and> map (displayOf (applyEdit decimalRuntime exampleSheet ''A1'' ''10'')) [''A1'', ''B1'', ''C1'']
       = [Some ''10'', Some ''8'', Some ''16'']"
  by code_simp

section \<open>Substitution of references\<close>

text \<open>
  C2, which the code does not meet. With \<open>B1\<close> showing \<open>5\<close> and \<open>B10\<close> showing \<open>7\<close>,
  the formula \<open>=B1+B10\<close> has the references \<open>B1\<close> and \<open>B10\<close>; replacing every \<open>B1\<close>
  by \<open>5\<close> turns the text into \<open>5+50\<close>, where no \<open>B10\<close> is left to replace, and the
  cell shows \<open>55\<close>, not \<open>12\<close>.
\<close>

theorem prefix_reference_substituted_wrongly:
  "matchRefs ''B1+B10'' = [''B1'', ''B10'']
   \<and> replaceAll ''B1'' ''5'' ''B1+B10'' = ''5+50''
   \<and> map (displayOf (applyEdits decimalRuntime initialSheet
          [(''B1'', ''5''), (''B10'', ''7''), (''C1'', ''=B1+B10'')])) [''B1'', ''B10'', ''C1'']
       = [Some ''5'', Some ''7'', Some ''55'']"
  by code_simp

section \<open>The error state and the display\<close>

lemma parse_formula_cases:
  assumes "startsWith cellFormula ''=''"
  shows "(\<exists>msg. parse rt cellFormula gv = (Str ''#ERROR'', Some msg))
       \<or> (\<exists>n. parse rt cellFormula gv = (Num n, None))"
  using assms
  by (simp add: parse_def Let_def split: sum.split jsval.split)

text \<open>
  What the engine keeps true of every cell: \<open>rawValue\<close> and \<open>formula\<close> are the same text;
  a formula cell has an error state exactly when it shows \<open>#ERROR\<close> or \<open>#CIRCULAR\<close>; a
  literal cell has none and shows its text.
\<close>

definition wellFormed :: "cell \<Rightarrow> bool" where
  "wellFormed c =
     (rawValue c = formula c
      \<and> (if startsWith (formula c) ''=''
         then (error c \<noteq> None) = (display c = ''#ERROR'' \<or> display c = ''#CIRCULAR'')
         else error c = None \<and> display c = formula c))"

definition printsNoSentinel :: "'n runtime \<Rightarrow> bool" where
  "printsNoSentinel rt =
     (\<forall>n. numToString rt n \<noteq> ''#ERROR'' \<and> numToString rt n \<noteq> ''#CIRCULAR'')"

lemma evaluateCell_wellFormed:
  assumes rt: "printsNoSentinel rt"
    and r: "r = fst (evaluateCell rt cells g cellId cellFormula)"
  shows "if startsWith cellFormula ''=''
         then (error r \<noteq> None) = (display r = ''#ERROR'' \<or> display r = ''#CIRCULAR'')
         else error r = None \<and> display r = cellFormula"
proof (cases "startsWith cellFormula ''=''")
  case False
  then show ?thesis
    by (simp add: r evaluateCell_def Let_def)
next
  case True
  show ?thesis
  proof (cases "detectCircular (snd (evaluateCell rt cells g cellId cellFormula)) cellId []")
    case circ: True
    with True show ?thesis
      by (simp add: r fst_evaluateCell_formula)
  next
    case circ: False
    from parse_formula_cases [OF True, of rt "getCellValue rt cells"]
    show ?thesis
    proof
      assume "\<exists>msg. parse rt cellFormula (getCellValue rt cells) = (Str ''#ERROR'', Some msg)"
      with True circ show ?thesis
        by (auto simp: r fst_evaluateCell_formula)
    next
      assume "\<exists>n. parse rt cellFormula (getCellValue rt cells) = (Num n, None)"
      with True circ rt show ?thesis
        by (auto simp: r fst_evaluateCell_formula valueToString_def printsNoSentinel_def)
    qed
  qed
qed

definition allWellFormed :: "cells \<Rightarrow> bool" where
  "allWellFormed cs = (\<forall>x c. cs x = Some c \<longrightarrow> wellFormed c)"

lemma wellFormed_recalc:
  assumes rt: "printsNoSentinel rt"
    and wf: "allWellFormed newCells"
  shows "\<exists>nc' g' e'. recalc rt cells newCells g visited evaluated queue = (nc', g', e')
           \<and> allWellFormed nc'"
proof -
  have "\<exists>nc' g' v' e'. recalc rt cells newCells g visited evaluated queue = (nc', g', e')
     \<and> (\<lambda>(nc :: cells) (g :: DependencyGraph) (v :: idset) (e :: string list)
           (q :: string list). allWellFormed nc) nc' g' v' e' []"
  proof (rule recalc_rule)
    show "allWellFormed newCells" by (rule wf)
  next
    fix nc :: cells and g g' :: DependencyGraph and d :: string and c :: cell
      and r :: evalResult
    assume inv: "allWellFormed nc"
      and c: "nc d = Some c"
      and ev: "evaluateCell rt cells g d (formula c) = (r, g')"
    from inv c have wc: "wellFormed c" by (simp add: allWellFormed_def)
    have "r = fst (evaluateCell rt cells g d (formula c))" by (simp add: ev)
    from evaluateCell_wellFormed [OF rt this] wc
    have "wellFormed (c\<lparr>display := display r, error := error r\<rparr>)"
      by (cases "startsWith (formula c) ''=''") (simp_all add: wellFormed_def)
    with inv
    show "allWellFormed (nc(d \<mapsto> c\<lparr>display := display r, error := error r\<rparr>))"
      by (simp add: allWellFormed_def)
  qed
  then show ?thesis by blast
qed

lemma wellFormed_applyEdit:
  assumes rt: "printsNoSentinel rt"
    and wf: "allWellFormed (sheetCells st)"
  shows "allWellFormed (sheetCells (applyEdit rt st cellId rawText))"
proof -
  obtain r g1 where ev: "evaluateCell rt (sheetCells st) (sheetGraph st) cellId rawText = (r, g1)"
    by (cases "evaluateCell rt (sheetCells st) (sheetGraph st) cellId rawText")
  have r: "r = fst (evaluateCell rt (sheetCells st) (sheetGraph st) cellId rawText)"
    by (simp add: ev)
  have fr: "formula r = rawText"
    by (simp add: r)
  let ?new = "\<lparr>display = display r, formula = formula r, error = error r, rawValue = rawText\<rparr>"
  let ?nc = "(sheetCells st)(cellId \<mapsto> ?new)"
  have "wellFormed ?new"
    using evaluateCell_wellFormed [OF rt r]
    by (cases "startsWith rawText ''=''") (simp_all add: wellFormed_def fr)
  with wf have "allWellFormed ?nc"
    by (simp add: allWellFormed_def)
  from wellFormed_recalc [OF rt this]
  obtain nc' g' e' where
    "recalc rt (sheetCells st) ?nc g1 [cellId] [] (getAllDependents g1 cellId []) = (nc', g', e')"
    and "allWellFormed nc'"
    by blast
  then show ?thesis
    by (simp add: applyEdit_def updateCell_def ev Let_def)
qed

lemma wellFormed_applyEdits:
  assumes rt: "printsNoSentinel rt"
  shows "allWellFormed (sheetCells st) \<Longrightarrow> allWellFormed (sheetCells (applyEdits rt st edits))"
proof (induction edits arbitrary: st)
  case Nil
  then show ?case by (simp add: applyEdits_def)
next
  case (Cons edit edits)
  obtain cellId rawText where e: "edit = (cellId, rawText)" by (cases edit)
  have "allWellFormed (sheetCells (applyEdit rt st cellId rawText))"
    by (rule wellFormed_applyEdit [OF rt Cons.prems])
  from Cons.IH [OF this] show ?case
    by (simp add: applyEdits_def e)
qed

lemma wellFormed_initial: "allWellFormed (sheetCells initialSheet)"
  by (auto simp: allWellFormed_def initialSheet_def initialCells_def emptyCell_def
      wellFormed_def startsWith_def split: if_splits)

lemma natToString_head: "natToString n \<noteq> [] \<and> hd (natToString n) \<noteq> CHR ''#''"
proof (induction n rule: natToString.induct)
  case (1 n)
  show ?case
  proof (cases "n < 10")
    case True
    then have "n \<in> {0, 1, 2, 3, 4, 5, 6, 7, 8, 9}" by auto
    then show ?thesis
      by (subst natToString.simps, subst (2) natToString.simps) (auto simp: char_of_def)
  next
    case False
    with 1 show ?thesis
      by (subst natToString.simps, subst (2) natToString.simps) simp
  qed
qed

lemma decimalRuntime_printsNoSentinel: "printsNoSentinel decimalRuntime"
proof -
  have "decimalToString x \<noteq> [] \<and> hd (decimalToString x) \<noteq> CHR ''#''" for x
    using natToString_head
    by (cases x) (auto simp: decimalToString_def positiveToString_def Let_def)
  then have "decimalToString x \<noteq> ''#ERROR'' \<and> decimalToString x \<noteq> ''#CIRCULAR''" for x
    by (metis list.sel(1))
  then show ?thesis
    by (simp add: printsNoSentinel_def decimalRuntime_def)
qed

text \<open>
  C3, amended. Take a runtime that prints no number as \<open>#ERROR\<close> or \<open>#CIRCULAR\<close>. In every
  cell record reachable from the initial sheet by edits, an error state is present only
  when the display is \<open>#ERROR\<close> or \<open>#CIRCULAR\<close>. For a cell whose raw input starts with
  \<open>=\<close> the converse holds too. A literal cell never has an error state and displays
  its raw input, also when that text is \<open>#ERROR\<close> or \<open>#CIRCULAR\<close>.
\<close>

theorem error_state_matches_display:
  assumes "printsNoSentinel rt"
    and "sheetCells (applyEdits rt initialSheet edits) cellId = Some c"
  shows "rawValue c = formula c
    \<and> (error c \<noteq> None \<longrightarrow> display c = ''#ERROR'' \<or> display c = ''#CIRCULAR'')
    \<and> (if startsWith (rawValue c) ''=''
       then (error c \<noteq> None) = (display c = ''#ERROR'' \<or> display c = ''#CIRCULAR'')
       else error c = None \<and> display c = rawValue c)"
proof -
  have "allWellFormed (sheetCells (applyEdits rt initialSheet edits))"
    by (rule wellFormed_applyEdits [OF assms(1) wellFormed_initial])
  with assms(2) have "wellFormed c"
    by (simp add: allWellFormed_def)
  then show ?thesis
    by (auto simp: wellFormed_def split: if_splits)
qed

theorem error_state_matches_display_witness:
  "printsNoSentinel decimalRuntime
   \<and> sheetCells (applyEdits decimalRuntime initialSheet [(''B1'', ''=A1+3''), (''A2'', ''#ERROR'')]) ''B1''
       = Some \<lparr>display = ''#ERROR'', formula = ''=A1+3'', error = Some ''Invalid reference: A1'',
               rawValue = ''=A1+3''\<rparr>
   \<and> startsWith ''=A1+3'' ''=''
   \<and> sheetCells (applyEdits decimalRuntime initialSheet [(''B1'', ''=A1+3''), (''A2'', ''#ERROR'')]) ''A2''
       = Some \<lparr>display = ''#ERROR'', formula = ''#ERROR'', error = None, rawValue = ''#ERROR''\<rparr>
   \<and> \<not> startsWith ''#ERROR'' ''=''"
proof -
  have b: "sheetCells (applyEdits decimalRuntime initialSheet
        [(''B1'', ''=A1+3''), (''A2'', ''#ERROR'')]) ''B1''
      = Some \<lparr>display = ''#ERROR'', formula = ''=A1+3'', error = Some ''Invalid reference: A1'',
              rawValue = ''=A1+3''\<rparr>"
    by code_simp
  have a: "sheetCells (applyEdits decimalRuntime initialSheet
        [(''B1'', ''=A1+3''), (''A2'', ''#ERROR'')]) ''A2''
      = Some \<lparr>display = ''#ERROR'', formula = ''#ERROR'', error = None, rawValue = ''#ERROR''\<rparr>"
    by code_simp
  from error_state_matches_display [OF decimalRuntime_printsNoSentinel b]
    error_state_matches_display [OF decimalRuntime_printsNoSentinel a]
  show ?thesis
    using decimalRuntime_printsNoSentinel a b by (simp add: startsWith_def)
qed

text \<open>
  As first stated, without the exception for literal cells, the property fails: the
  literal input \<open>#ERROR\<close> is shown as it is, and the cell has no error state.
\<close>

theorem literal_sentinel_without_error:
  "displayOf (applyEdit decimalRuntime initialSheet ''A1'' ''#ERROR'') ''A1'' = Some ''#ERROR''
   \<and> errorOf (applyEdit decimalRuntime initialSheet ''A1'' ''#ERROR'') ''A1'' = Some None"
  by code_simp

section \<open>Circular references\<close>

text \<open>
  Two precedent edges that point at each other are found by the walk of
  \<open>detectCircular\<close>; for \<open>x = y\<close> this is the edge from a cell to itself.
\<close>

lemma detectCircular_mutual:
  assumes "y \<in> precedents g x" and "x \<in> precedents g y"
  shows "detectCircular g x []"
proof -
  have "detectCircular g x (setAdd y (setAdd x []))"
    by (subst detectCircular.simps) (simp add: setAdd_def)
  with assms(2) have "detectCircular g y (setAdd x [])"
    by (subst detectCircular.simps) (auto simp: precedents_def list_ex_iff)
  with assms(1) show ?thesis
    by (subst detectCircular.simps) (auto simp: precedents_def list_ex_iff)
qed

definition circularResult :: "string \<Rightarrow> evalResult" where
  "circularResult cellFormula =
     \<lparr>display = ''#CIRCULAR'', formula = cellFormula, error = Some ''Circular reference detected''\<rparr>"

lemma evaluateCell_in_cycle:
  assumes "startsWith cellFormula ''=''" and "y \<in> set (matchRefs cellFormula)"
    and "x = y \<or> x \<in> precedents g y"
  shows "fst (evaluateCell rt cells g x cellFormula) = circularResult cellFormula"
proof -
  let ?g' = "snd (evaluateCell rt cells g x cellFormula)"
  have "y \<in> precedents ?g' x"
    using assms(1,2) by (simp add: precedents_evaluateCell refsOf_formula)
  moreover have "x \<in> precedents ?g' y"
    using assms by (auto simp: precedents_evaluateCell refsOf_formula)
  ultimately have "detectCircular ?g' x []"
    by (rule detectCircular_mutual)
  then show ?thesis
    by (simp add: fst_evaluateCell_formula [OF assms(1)] circularResult_def)
qed

text \<open>
  \<open>showsCircular cs x y\<close>: the cell \<open>x\<close> holds a formula with a reference to \<open>y\<close> and
  shows \<open>#CIRCULAR\<close>. \<open>inCycle cs g x y\<close>: \<open>x\<close> and \<open>y\<close> (which may be the same cell) are
  such cells for each other, and the graph has both edges.
\<close>

definition showsCircular :: "cells \<Rightarrow> string \<Rightarrow> string \<Rightarrow> bool" where
  "showsCircular cs x y =
     (\<exists>c. cs x = Some c \<and> startsWith (formula c) ''='' \<and> y \<in> set (matchRefs (formula c))
          \<and> display c = ''#CIRCULAR'' \<and> error c = Some ''Circular reference detected'')"

definition inCycle :: "cells \<Rightarrow> DependencyGraph \<Rightarrow> string \<Rightarrow> string \<Rightarrow> bool" where
  "inCycle cs g x y =
     (y \<in> precedents g x \<and> x \<in> precedents g y \<and> showsCircular cs x y \<and> showsCircular cs y x)"

lemma showsCircular_other:
  "showsCircular cs x y \<Longrightarrow> d \<noteq> x \<Longrightarrow> showsCircular (cs(d \<mapsto> c)) x y"
  by (simp add: showsCircular_def)

lemma showsCircular_reevaluated:
  assumes "showsCircular nc x y" and "nc x = Some c" and "x = y \<or> x \<in> precedents g y"
    and "evaluateCell rt cells g x (formula c) = (r, g')"
  shows "showsCircular (nc(x \<mapsto> c\<lparr>display := display r, error := error r\<rparr>)) x y"
proof -
  from assms(1,2) have f: "startsWith (formula c) ''=''" "y \<in> set (matchRefs (formula c))"
    by (auto simp: showsCircular_def)
  from evaluateCell_in_cycle [OF f assms(3), of rt cells] assms(4)
  have "r = circularResult (formula c)" by simp
  with f show ?thesis
    by (simp add: showsCircular_def circularResult_def)
qed

text \<open>A cycle survives the re-evaluation of any cell with its own formula.\<close>

lemma inCycle_reevaluated:
  assumes cyc: "inCycle nc g x y" and c: "nc d = Some c"
    and ev: "evaluateCell rt cells g d (formula c) = (r, g')"
  shows "inCycle (nc(d \<mapsto> c\<lparr>display := display r, error := error r\<rparr>)) g' x y"
proof -
  let ?nc' = "nc(d \<mapsto> c\<lparr>display := display r, error := error r\<rparr>)"
  from ev have g': "g' = snd (evaluateCell rt cells g d (formula c))" by simp
  from cyc have p: "y \<in> precedents g x" "x \<in> precedents g y"
    and s: "showsCircular nc x y" "showsCircular nc y x"
    by (simp_all add: inCycle_def)
  have fx: "formula c = formula c \<and> y \<in> set (refsOf (formula c))" if "d = x"
    using s(1) c that by (auto simp: showsCircular_def refsOf_formula)
  have fy: "x \<in> set (refsOf (formula c))" if "d = y"
    using s(2) c that by (auto simp: showsCircular_def refsOf_formula)
  have "y \<in> precedents g' x"
    using p(1) fx by (auto simp: g' precedents_evaluateCell)
  moreover have "x \<in> precedents g' y"
    using p(2) fy by (auto simp: g' precedents_evaluateCell)
  moreover have "showsCircular ?nc' x y"
  proof (cases "d = x")
    case True
    with s(1) c p(2) ev show ?thesis
      by (auto intro: showsCircular_reevaluated)
  next
    case False
    with s(1) show ?thesis by (simp add: showsCircular_other)
  qed
  moreover have "showsCircular ?nc' y x"
  proof (cases "d = y")
    case True
    with s(2) c p(1) ev show ?thesis
      by (auto intro: showsCircular_reevaluated)
  next
    case False
    with s(2) show ?thesis by (simp add: showsCircular_other)
  qed
  ultimately show ?thesis by (simp add: inCycle_def)
qed

lemma inCycle_recalc:
  assumes "inCycle newCells g x y"
  shows "\<exists>nc' g' e'. recalc rt cells newCells g visited evaluated queue = (nc', g', e')
           \<and> inCycle nc' g' x y"
proof -
  have "\<exists>nc' g' v' e'. recalc rt cells newCells g visited evaluated queue = (nc', g', e')
     \<and> (\<lambda>(nc :: cells) (g :: DependencyGraph) (v :: idset) (e :: string list)
           (q :: string list). inCycle nc g x y) nc' g' v' e' []"
  proof (rule recalc_rule)
    show "inCycle newCells g x y" by (rule assms)
  next
    fix nc :: cells and g g' :: DependencyGraph and d :: string and c :: cell
      and r :: evalResult
    assume "inCycle nc g x y" and "nc d = Some c"
      and "evaluateCell rt cells g d (formula c) = (r, g')"
    then show "inCycle (nc(d \<mapsto> c\<lparr>display := display r, error := error r\<rparr>)) g' x y"
      by (rule inCycle_reevaluated)
  qed
  then show ?thesis by blast
qed

text \<open>A cycle survives the edit of any other cell.\<close>

lemma inCycle_applyEdit:
  assumes cyc: "inCycle (sheetCells st) (sheetGraph st) x y"
    and other: "cellId \<noteq> x" "cellId \<noteq> y"
  shows "inCycle (sheetCells (applyEdit rt st cellId rawText))
           (sheetGraph (applyEdit rt st cellId rawText)) x y"
proof -
  obtain r g1 where ev: "evaluateCell rt (sheetCells st) (sheetGraph st) cellId rawText = (r, g1)"
    by (cases "evaluateCell rt (sheetCells st) (sheetGraph st) cellId rawText")
  then have g1: "g1 = snd (evaluateCell rt (sheetCells st) (sheetGraph st) cellId rawText)"
    by simp
  let ?nc = "(sheetCells st)(cellId \<mapsto>
      \<lparr>display = display r, formula = formula r, error = error r, rawValue = rawText\<rparr>)"
  have "inCycle ?nc g1 x y"
    using cyc other
    by (simp add: inCycle_def g1 precedents_evaluateCell showsCircular_other)
  from inCycle_recalc [OF this]
  obtain nc' g' e' where
    "recalc rt (sheetCells st) ?nc g1 [cellId] [] (getAllDependents g1 cellId []) = (nc', g', e')"
    and "inCycle nc' g' x y"
    by blast
  then show ?thesis
    by (simp add: applyEdit_def updateCell_def ev Let_def)
qed

lemma inCycle_applyEdits:
  assumes "x \<notin> fst ` set later" and "y \<notin> fst ` set later"
  shows "inCycle (sheetCells st) (sheetGraph st) x y \<Longrightarrow>
    inCycle (sheetCells (applyEdits rt st later)) (sheetGraph (applyEdits rt st later)) x y"
  using assms
proof (induction later arbitrary: st)
  case Nil
  then show ?case by (simp add: applyEdits_def)
next
  case (Cons edit later)
  obtain cellId rawText where e: "edit = (cellId, rawText)" by (cases edit)
  with Cons.prems have other: "cellId \<noteq> x" "cellId \<noteq> y"
    and rest: "x \<notin> fst ` set later" "y \<notin> fst ` set later"
    by auto
  have "inCycle (sheetCells (applyEdit rt st cellId rawText))
      (sheetGraph (applyEdit rt st cellId rawText)) x y"
    by (rule inCycle_applyEdit [OF Cons.prems(1) other])
  from Cons.IH [OF this rest] show ?case
    by (simp add: applyEdits_def e)
qed

text \<open>The edit of \<open>x\<close> registers the edges of its formula, and the loop keeps them.\<close>

lemma applyEdit_keeps_new_edge:
  assumes eq: "startsWith fx ''=''" and y: "y \<in> set (matchRefs fx)"
  shows "y \<in> precedents (sheetGraph (applyEdit rt st x fx)) x
       \<and> x \<in> dependentsOf (sheetGraph (applyEdit rt st x fx)) y"
proof -
  obtain r g1 where ev: "evaluateCell rt (sheetCells st) (sheetGraph st) x fx = (r, g1)"
    by (cases "evaluateCell rt (sheetCells st) (sheetGraph st) x fx")
  then have g1: "g1 = snd (evaluateCell rt (sheetCells st) (sheetGraph st) x fx)"
    by simp
  let ?nc = "(sheetCells st)(x \<mapsto>
      \<lparr>display = display r, formula = formula r, error = error r, rawValue = fx\<rparr>)"
  define I where "I = (\<lambda>(nc :: cells) (g :: DependencyGraph) (v :: idset) (e :: string list)
      (q :: string list). x \<in> set v \<and> y \<in> precedents g x \<and> x \<in> dependentsOf g y)"
  have "\<exists>nc' g' v' e'. recalc rt (sheetCells st) ?nc g1 [x] [] (getAllDependents g1 x [])
      = (nc', g', e') \<and> I nc' g' v' e' []"
  proof (rule recalc_rule)
    show "I ?nc g1 [x] [] (getAllDependents g1 x [])"
      using eq y
      by (simp add: I_def g1 precedents_evaluateCell dependentsOf_evaluateCell refsOf_formula)
  next
    fix nc :: cells and g g' :: DependencyGraph and v :: idset and e q :: "string list"
      and d :: string and c :: cell and r :: evalResult
    assume I: "I nc g v e (d # q)" and nv: "d \<notin> set v"
      and ev: "evaluateCell rt (sheetCells st) g d (formula c) = (r, g')"
    from I nv have dx: "d \<noteq> x" by (auto simp: I_def)
    from ev have g': "g' = snd (evaluateCell rt (sheetCells st) g d (formula c))" by simp
    from I dx
    show "I (nc(d \<mapsto> c\<lparr>display := display r, error := error r\<rparr>)) g' (setAdd d v) (e @ [d])
        (q @ filter (\<lambda>dep. dep \<notin> set (setAdd d v)) (getAllDependents g' d []))"
      by (auto simp: I_def g' precedents_evaluateCell dependentsOf_evaluateCell setAdd_def)
  qed (auto simp: I_def setAdd_def)
  then show ?thesis
    by (auto simp: I_def applyEdit_def updateCell_def ev Let_def)
qed

lemma applyEdit_self_cycle:
  assumes "startsWith fx ''=''" and "x \<in> set (matchRefs fx)"
  shows "inCycle (sheetCells (applyEdit rt st x fx)) (sheetGraph (applyEdit rt st x fx)) x x"
proof -
  have "fst (evaluateCell rt (sheetCells st) (sheetGraph st) x fx) = circularResult fx"
    using assms by (intro evaluateCell_in_cycle [of fx x]) simp_all
  then have "showsCircular (sheetCells (applyEdit rt st x fx)) x x"
    using assms by (simp add: showsCircular_def applyEdit_edited_cell circularResult_def)
  with applyEdit_keeps_new_edge [OF assms, of rt st x] show ?thesis
    by (simp add: inCycle_def)
qed

lemma getAllDependents_contains:
  "set deps \<union> set result \<subseteq> set (forEachDependent g deps result)"
proof (induction g deps result rule: forEachDependent.induct)
  case (1 g result)
  show ?case by simp
next
  case (2 g dep deps result)
  show ?case
  proof (cases "dep \<in> set result")
    case True
    with 2 show ?thesis by auto
  next
    case False
    with 2 show ?thesis by (auto simp: setAdd_def)
  qed
qed

lemma getAllDependents_direct: "x \<in> dependentsOf g y \<Longrightarrow> x \<in> set (getAllDependents g y [])"
  using getAllDependents_contains [of "getOrEmpty (graph g) y" "[]" g]
  by (auto simp: getAllDependents_def dependentsOf_def)

text \<open>
  The second edit of a mutual pair: \<open>x\<close> already holds a formula that refers to \<open>y\<close>, and
  \<open>y\<close> receives a formula that refers to \<open>x\<close>. The edited cell \<open>y\<close> is found circular at
  once, and \<open>x\<close>, a direct dependent of \<open>y\<close>, when the loop reaches it.
\<close>

lemma applyEdit_closes_cycle:
  assumes xy: "x \<noteq> y"
    and eqx: "startsWith fx ''=''" and yx: "y \<in> set (matchRefs fx)"
    and eqy: "startsWith fy ''=''" and xy': "x \<in> set (matchRefs fy)"
    and cx: "sheetCells st x = Some cx" and fcx: "formula cx = fx"
    and p: "y \<in> precedents (sheetGraph st) x"
    and d: "x \<in> dependentsOf (sheetGraph st) y"
  shows "inCycle (sheetCells (applyEdit rt st y fy)) (sheetGraph (applyEdit rt st y fy)) x y"
proof -
  obtain r g1 where ev: "evaluateCell rt (sheetCells st) (sheetGraph st) y fy = (r, g1)"
    by (cases "evaluateCell rt (sheetCells st) (sheetGraph st) y fy")
  then have g1: "g1 = snd (evaluateCell rt (sheetCells st) (sheetGraph st) y fy)"
    and r: "r = fst (evaluateCell rt (sheetCells st) (sheetGraph st) y fy)"
    by simp_all
  have rc: "r = circularResult fy"
    unfolding r using eqy xy' p by (intro evaluateCell_in_cycle [of fy x]) simp_all
  from eqx have fx_ne: "fx \<noteq> []" by (auto simp: startsWith_def)
  let ?nc = "(sheetCells st)(y \<mapsto>
      \<lparr>display = display r, formula = formula r, error = error r, rawValue = fy\<rparr>)"
  define I where "I = (\<lambda>(nc :: cells) (g :: DependencyGraph) (v :: idset) (e :: string list)
      (q :: string list).
      y \<in> set v \<and> x \<in> precedents g y \<and> y \<in> precedents g x \<and> showsCircular nc y x
      \<and> (\<exists>c. nc x = Some c \<and> formula c = fx \<and> (x \<in> set v \<longrightarrow> showsCircular nc x y))
      \<and> (x \<notin> set v \<longrightarrow> x \<in> set q))"
  have "\<exists>nc' g' v' e'. recalc rt (sheetCells st) ?nc g1 [y] [] (getAllDependents g1 y [])
      = (nc', g', e') \<and> I nc' g' v' e' []"
  proof (rule recalc_rule)
    have "x \<in> dependentsOf g1 y"
      using d xy by (simp add: g1 dependentsOf_evaluateCell)
    then have "x \<in> set (getAllDependents g1 y [])"
      by (rule getAllDependents_direct)
    moreover have "x \<in> precedents g1 y"
      using eqy xy' by (simp add: g1 precedents_evaluateCell refsOf_formula)
    moreover have "y \<in> precedents g1 x"
      using p xy by (simp add: g1 precedents_evaluateCell)
    moreover have "showsCircular ?nc y x"
      using eqy xy' by (simp add: showsCircular_def rc circularResult_def)
    ultimately show "I ?nc g1 [y] [] (getAllDependents g1 y [])"
      using xy cx fcx by (simp add: I_def)
  next
    fix nc :: cells and g :: DependencyGraph and v :: idset and e q :: "string list"
      and d :: string
    assume "I nc g v e (d # q)" and "d \<in> set v"
    then show "I nc g v e q" by (auto simp: I_def)
  next
    fix nc :: cells and g :: DependencyGraph and v :: idset and e q :: "string list"
      and d :: string
    assume "I nc g v e (d # q)" and "d \<notin> set v" and "nc d = None"
    then show "I nc g (setAdd d v) e q" by (auto simp: I_def setAdd_def)
  next
    fix nc :: cells and g :: DependencyGraph and v :: idset and e q :: "string list"
      and d :: string and c :: cell
    assume "I nc g v e (d # q)" and "d \<notin> set v" and "nc d = Some c" and "formula c = []"
    then show "I nc g (setAdd d v) e q"
      using fx_ne by (auto simp: I_def setAdd_def)
  next
    fix nc :: cells and g g' :: DependencyGraph and v :: idset and e q :: "string list"
      and d :: string and c :: cell and r :: evalResult
    assume I: "I nc g v e (d # q)" and nv: "d \<notin> set v" and c: "nc d = Some c"
      and ev: "evaluateCell rt (sheetCells st) g d (formula c) = (r, g')"
    let ?nc' = "nc(d \<mapsto> c\<lparr>display := display r, error := error r\<rparr>)"
    from I nv have dy: "d \<noteq> y" by (auto simp: I_def)
    from ev have g': "g' = snd (evaluateCell rt (sheetCells st) g d (formula c))"
      and r: "r = fst (evaluateCell rt (sheetCells st) g d (formula c))"
      by simp_all
    from I have py: "x \<in> precedents g y" and px: "y \<in> precedents g x"
      and sy: "showsCircular nc y x"
      by (simp_all add: I_def)
    from py dy have py': "x \<in> precedents g' y"
      by (simp add: g' precedents_evaluateCell)
    from sy dy have sy': "showsCircular ?nc' y x"
      by (simp add: showsCircular_other)
    show "I ?nc' g' (setAdd d v) (e @ [d])
        (q @ filter (\<lambda>dep. dep \<notin> set (setAdd d v)) (getAllDependents g' d []))"
    proof (cases "d = x")
      case True
      with I c have fc: "formula c = fx" by (auto simp: I_def)
      from evaluateCell_in_cycle [OF eqx yx disjI2 [OF py], of rt "sheetCells st"]
      have "r = circularResult fx"
        by (simp add: r fc True)
      then have "showsCircular ?nc' x y"
        using eqx yx fc True by (simp add: showsCircular_def circularResult_def)
      moreover have "y \<in> precedents g' x"
        using yx eqx by (simp add: g' True fc precedents_evaluateCell refsOf_formula)
      ultimately show ?thesis
        using I py' sy' True fc by (auto simp: I_def setAdd_def)
    next
      case False
      then have "y \<in> precedents g' x"
        using px by (simp add: g' precedents_evaluateCell)
      moreover have "showsCircular ?nc' x y" if "showsCircular nc x y"
        using that False by (simp add: showsCircular_other)
      ultimately show ?thesis
        using I py' sy' False by (auto simp: I_def setAdd_def)
    qed
  qed
  then show ?thesis
    by (auto simp: I_def inCycle_def applyEdit_def updateCell_def ev Let_def)
qed

lemma inCycle_shown:
  assumes "inCycle (sheetCells st) (sheetGraph st) x y"
  shows "displayOf st x = Some ''#CIRCULAR''
       \<and> errorOf st x = Some (Some ''Circular reference detected'')
       \<and> getCellValue rt (sheetCells st) x = None
       \<and> displayOf st y = Some ''#CIRCULAR''
       \<and> errorOf st y = Some (Some ''Circular reference detected'')
       \<and> getCellValue rt (sheetCells st) y = None"
  using assms
  by (auto simp: inCycle_def showsCircular_def displayOf_def errorOf_def getCellValue_def)

text \<open>
  C4. In any state of the engine, an edit that gives a cell \<open>x\<close> a formula with a
  reference to \<open>x\<close> itself leaves \<open>x\<close> showing \<open>#CIRCULAR\<close> with the error state
  \<open>Circular reference detected\<close>. When \<open>x\<close> is given a formula that refers to another
  cell \<open>y\<close> and then \<open>y\<close> a formula that refers to \<open>x\<close>, after the second edit both cells
  show \<open>#CIRCULAR\<close> with that error state. From then on, through any further edits
  \<open>later\<close> of other cells, the cells keep showing \<open>#CIRCULAR\<close> and resolve to no number
  (\<open>getCellValue\<close> answers \<open>undefined\<close>); \<open>later\<close> may be empty.
\<close>

theorem circular_references_detected:
  "(startsWith fx ''='' \<and> x \<in> set (matchRefs fx) \<and> x \<notin> fst ` set later \<longrightarrow>
      displayOf (applyEdits rt (applyEdit rt st x fx) later) x = Some ''#CIRCULAR''
      \<and> errorOf (applyEdits rt (applyEdit rt st x fx) later) x
          = Some (Some ''Circular reference detected'')
      \<and> getCellValue rt (sheetCells (applyEdits rt (applyEdit rt st x fx) later)) x = None)
   \<and> (x \<noteq> y \<and> startsWith fx ''='' \<and> y \<in> set (matchRefs fx)
        \<and> startsWith fy ''='' \<and> x \<in> set (matchRefs fy)
        \<and> x \<notin> fst ` set later \<and> y \<notin> fst ` set later \<longrightarrow>
      displayOf (applyEdits rt (applyEdit rt (applyEdit rt st x fx) y fy) later) x
          = Some ''#CIRCULAR''
      \<and> errorOf (applyEdits rt (applyEdit rt (applyEdit rt st x fx) y fy) later) x
          = Some (Some ''Circular reference detected'')
      \<and> getCellValue rt (sheetCells
            (applyEdits rt (applyEdit rt (applyEdit rt st x fx) y fy) later)) x = None
      \<and> displayOf (applyEdits rt (applyEdit rt (applyEdit rt st x fx) y fy) later) y
          = Some ''#CIRCULAR''
      \<and> errorOf (applyEdits rt (applyEdit rt (applyEdit rt st x fx) y fy) later) y
          = Some (Some ''Circular reference detected'')
      \<and> getCellValue rt (sheetCells
            (applyEdits rt (applyEdit rt (applyEdit rt st x fx) y fy) later)) y = None)"
proof (rule conjI; rule impI)
  assume a: "startsWith fx ''='' \<and> x \<in> set (matchRefs fx) \<and> x \<notin> fst ` set later"
  let ?st1 = "applyEdit rt st x fx"
  from a have "inCycle (sheetCells ?st1) (sheetGraph ?st1) x x"
    by (simp add: applyEdit_self_cycle)
  with a have "inCycle (sheetCells (applyEdits rt ?st1 later))
      (sheetGraph (applyEdits rt ?st1 later)) x x"
    by (intro inCycle_applyEdits) simp_all
  from inCycle_shown [OF this, of rt]
  show "displayOf (applyEdits rt ?st1 later) x = Some ''#CIRCULAR''
      \<and> errorOf (applyEdits rt ?st1 later) x = Some (Some ''Circular reference detected'')
      \<and> getCellValue rt (sheetCells (applyEdits rt ?st1 later)) x = None"
    by simp
next
  assume a: "x \<noteq> y \<and> startsWith fx ''='' \<and> y \<in> set (matchRefs fx)
      \<and> startsWith fy ''='' \<and> x \<in> set (matchRefs fy)
      \<and> x \<notin> fst ` set later \<and> y \<notin> fst ` set later"
  let ?st1 = "applyEdit rt st x fx"
  let ?st2 = "applyEdit rt ?st1 y fy"
  from a have edge: "y \<in> precedents (sheetGraph ?st1) x" "x \<in> dependentsOf (sheetGraph ?st1) y"
    by (simp_all add: applyEdit_keeps_new_edge)
  obtain cx where cx: "sheetCells ?st1 x = Some cx" and fcx: "formula cx = fx"
    by (simp add: applyEdit_edited_cell)
  have "inCycle (sheetCells ?st2) (sheetGraph ?st2) x y"
    using a cx fcx edge by (intro applyEdit_closes_cycle [of x y fx fy ?st1 cx]) simp_all
  with a have "inCycle (sheetCells (applyEdits rt ?st2 later))
      (sheetGraph (applyEdits rt ?st2 later)) x y"
    by (intro inCycle_applyEdits) simp_all
  from inCycle_shown [OF this, of rt]
  show "displayOf (applyEdits rt ?st2 later) x = Some ''#CIRCULAR''
      \<and> errorOf (applyEdits rt ?st2 later) x = Some (Some ''Circular reference detected'')
      \<and> getCellValue rt (sheetCells (applyEdits rt ?st2 later)) x = None
      \<and> displayOf (applyEdits rt ?st2 later) y = Some ''#CIRCULAR''
      \<and> errorOf (applyEdits rt ?st2 later) y = Some (Some ''Circular reference detected'')
      \<and> getCellValue rt (sheetCells (applyEdits rt ?st2 later)) y = None"
    by simp
qed

theorem circular_references_detected_witness:
  "startsWith ''=A1+1'' ''='' \<and> ''A1'' \<in> set (matchRefs ''=A1+1'')
   \<and> ''A1'' \<notin> fst ` set [(''C1'', ''7'')]
   \<and> displayOf (applyEdits decimalRuntime (applyEdit decimalRuntime initialSheet ''A1'' ''=A1+1'')
         [(''C1'', ''7'')]) ''A1'' = Some ''#CIRCULAR''
   \<and> ''A1'' \<noteq> ''B1'' \<and> startsWith ''=B1'' ''='' \<and> ''B1'' \<in> set (matchRefs ''=B1'')
   \<and> startsWith ''=A1'' ''='' \<and> ''A1'' \<in> set (matchRefs ''=A1'')
   \<and> ''B1'' \<notin> fst ` set [(''C1'', ''7'')]
   \<and> displayOf (applyEdits decimalRuntime
         (applyEdit decimalRuntime (applyEdit decimalRuntime initialSheet ''A1'' ''=B1'')
            ''B1'' ''=A1'') [(''C1'', ''7'')]) ''A1'' = Some ''#CIRCULAR''
   \<and> displayOf (applyEdits decimalRuntime
         (applyEdit decimalRuntime (applyEdit decimalRuntime initialSheet ''A1'' ''=B1'')
            ''B1'' ''=A1'') [(''C1'', ''7'')]) ''B1'' = Some ''#CIRCULAR''"
proof -
  have h1: "startsWith ''=A1+1'' ''='' \<and> ''A1'' \<in> set (matchRefs ''=A1+1'')
      \<and> ''A1'' \<notin> fst ` set [(''C1'', ''7'')]"
    by code_simp
  have h2: "''A1'' \<noteq> ''B1'' \<and> startsWith ''=B1'' ''='' \<and> ''B1'' \<in> set (matchRefs ''=B1'')
      \<and> startsWith ''=A1'' ''='' \<and> ''A1'' \<in> set (matchRefs ''=A1'')
      \<and> ''A1'' \<notin> fst ` set [(''C1'', ''7'')] \<and> ''B1'' \<notin> fst ` set [(''C1'', ''7'')]"
    by code_simp
  from circular_references_detected [where fx = "''=A1+1''" and x = "''A1''"
      and later = "[(''C1'', ''7'')]" and rt = decimalRuntime and st = initialSheet] h1
  have c1: "displayOf (applyEdits decimalRuntime
        (applyEdit decimalRuntime initialSheet ''A1'' ''=A1+1'') [(''C1'', ''7'')]) ''A1''
      = Some ''#CIRCULAR''"
    by blast
  from circular_references_detected [where fx = "''=B1''" and x = "''A1''" and y = "''B1''"
      and fy = "''=A1''" and later = "[(''C1'', ''7'')]" and rt = decimalRuntime
      and st = initialSheet] h2
  have c2: "displayOf (applyEdits decimalRuntime
         (applyEdit decimalRuntime (applyEdit decimalRuntime initialSheet ''A1'' ''=B1'')
            ''B1'' ''=A1'') [(''C1'', ''7'')]) ''A1'' = Some ''#CIRCULAR''
     \<and> displayOf (applyEdits decimalRuntime
         (applyEdit decimalRuntime (applyEdit decimalRuntime initialSheet ''A1'' ''=B1'')
            ''B1'' ''=A1'') [(''C1'', ''7'')]) ''B1'' = Some ''#CIRCULAR''"
    by blast
  from h1 h2 c1 c2 show ?thesis by blast
qed

section \<open>References that do not resolve\<close>





























section \<open>The edges follow the formulas\<close>

definition formulaOf :: "cells \<Rightarrow> string \<Rightarrow> string" where
  "formulaOf cs x = (case cs x of Some c \<Rightarrow> formula c | None \<Rightarrow> [])"

text \<open>
  The edge sets of every cell are those of its formula, in both indexes: \<open>x\<close> is
  registered as depending on \<open>y\<close> exactly when \<open>y\<close> is a reference of the formula of \<open>x\<close>.
\<close>

definition edgesConsistent :: "cells \<Rightarrow> DependencyGraph \<Rightarrow> bool" where
  "edgesConsistent cs g =
     (\<forall>x. precedents g x = set (refsOf (formulaOf cs x))
        \<and> (\<forall>y. (x \<in> dependentsOf g y) = (y \<in> precedents g x)))"

lemma edgesConsistent_initial: "edgesConsistent initialCells emptyGraph"
  by (simp add: edgesConsistent_def precedents_def dependentsOf_def emptyGraph_def
      getOrEmpty_def formulaOf_def initialCells_def emptyCell_def refsOf_def)

lemma edgesConsistent_evaluateCell:
  assumes inv: "edgesConsistent cs g"
    and f: "formula c' = cellFormula"
  shows "edgesConsistent (cs(cellId \<mapsto> c')) (snd (evaluateCell rt cells g cellId cellFormula))"
proof -
  let ?g' = "snd (evaluateCell rt cells g cellId cellFormula)"
  have p: "precedents g x = set (refsOf (formulaOf cs x))" for x
    using inv by (simp add: edgesConsistent_def)
  have d: "(x \<in> dependentsOf g y) = (y \<in> precedents g x)" for x y
    using inv by (simp add: edgesConsistent_def)
  have "precedents ?g' x = set (refsOf (formulaOf (cs(cellId \<mapsto> c')) x))" for x
    using p [of x] f by (simp add: precedents_evaluateCell formulaOf_def)
  moreover have "(x \<in> dependentsOf ?g' y) = (y \<in> precedents ?g' x)" for x y
    using d [of x y] d [of cellId y]
    by (auto simp: precedents_evaluateCell dependentsOf_evaluateCell)
  ultimately show ?thesis
    by (simp add: edgesConsistent_def)
qed

lemma edgesConsistent_recalc:
  assumes "edgesConsistent newCells g"
  shows "\<exists>nc' g' e'. recalc rt cells newCells g visited evaluated queue = (nc', g', e')
           \<and> edgesConsistent nc' g'"
proof -
  have "\<exists>nc' g' v' e'. recalc rt cells newCells g visited evaluated queue = (nc', g', e')
           \<and> (\<lambda>nc g (v :: idset) (e :: string list) (q :: string list). edgesConsistent nc g)
               nc' g' v' e' []"
  proof (rule recalc_rule)
    show "edgesConsistent newCells g" by (rule assms)
  next
    fix nc :: cells and g g' :: DependencyGraph and d :: string and c :: cell and r :: evalResult
    assume inv: "edgesConsistent nc g"
      and ev: "evaluateCell rt cells g d (formula c) = (r, g')"
    have "edgesConsistent (nc(d \<mapsto> c\<lparr>display := display r, error := error r\<rparr>))
        (snd (evaluateCell rt cells g d (formula c)))"
      by (rule edgesConsistent_evaluateCell [OF inv]) simp
    then show "edgesConsistent (nc(d \<mapsto> c\<lparr>display := display r, error := error r\<rparr>)) g'"
      by (simp add: ev)
  qed
  then show ?thesis by blast
qed

lemma edgesConsistent_applyEdit:
  assumes "edgesConsistent (sheetCells st) (sheetGraph st)"
  shows "edgesConsistent (sheetCells (applyEdit rt st cellId rawText))
           (sheetGraph (applyEdit rt st cellId rawText))"
proof -
  obtain r g1 where ev: "evaluateCell rt (sheetCells st) (sheetGraph st) cellId rawText = (r, g1)"
    by (cases "evaluateCell rt (sheetCells st) (sheetGraph st) cellId rawText")
  let ?nc = "(sheetCells st)(cellId \<mapsto>
      \<lparr>display = display r, formula = formula r, error = error r, rawValue = rawText\<rparr>)"
  have fr: "formula r = rawText"
    using formula_evaluateCell [of rt "sheetCells st" "sheetGraph st" cellId rawText]
    by (simp add: ev)
  have "edgesConsistent ?nc (snd (evaluateCell rt (sheetCells st) (sheetGraph st) cellId rawText))"
    by (rule edgesConsistent_evaluateCell [OF assms]) (simp add: fr)
  then have "edgesConsistent ?nc g1" by (simp add: ev)
  from edgesConsistent_recalc [OF this]
  obtain nc' g' e' where
    "recalc rt (sheetCells st) ?nc g1 [cellId] [] (getAllDependents g1 cellId []) = (nc', g', e')"
    and "edgesConsistent nc' g'"
    by blast
  then show ?thesis
    by (simp add: applyEdit_def updateCell_def ev Let_def)
qed

lemma edgesConsistent_applyEdits:
  "edgesConsistent (sheetCells st) (sheetGraph st) \<Longrightarrow>
   edgesConsistent (sheetCells (applyEdits rt st edits)) (sheetGraph (applyEdits rt st edits))"
proof (induction edits arbitrary: st)
  case Nil
  then show ?case by (simp add: applyEdits_def)
next
  case (Cons edit edits)
  obtain cellId rawText where e: "edit = (cellId, rawText)" by (cases edit)
  have "edgesConsistent (sheetCells (applyEdit rt st cellId rawText))
      (sheetGraph (applyEdit rt st cellId rawText))"
    by (rule edgesConsistent_applyEdit [OF Cons.prems])
  from Cons.IH [OF this] show ?case
    by (simp add: applyEdits_def e)
qed

lemma edgesConsistent_reachable:
  "edgesConsistent (sheetCells (applyEdits rt initialSheet edits))
     (sheetGraph (applyEdits rt initialSheet edits))"
  by (rule edgesConsistent_applyEdits) (simp add: initialSheet_def edgesConsistent_initial)

text \<open>
  The edges from a cell to its direct dependents, as a relation. The loop re-evaluates
  only cells that the edited cell reaches along these edges.
\<close>

definition dependentEdges :: "DependencyGraph \<Rightarrow> (string \<times> string) set" where
  "dependentEdges g = {(y, x). x \<in> dependentsOf g y}"

lemma forEachDependent_reach:
  "set (forEachDependent g deps result) \<subseteq> set result \<union> (dependentEdges g)\<^sup>* `` set deps"
proof (induction g deps result rule: forEachDependent.induct)
  case (1 g result)
  show ?case by simp
next
  case (2 g dep deps result)
  define D where "D = (dependentEdges g)\<^sup>*"
  have split: "D `` set (dep # deps) = D `` {dep} \<union> D `` set deps"
    by auto
  show ?case
  proof (cases "dep \<in> set result")
    case True
    then have "forEachDependent g (dep # deps) result = forEachDependent g deps result"
      by simp
    moreover have "set (forEachDependent g deps result) \<subseteq> set result \<union> D `` set deps"
      unfolding D_def by (rule "2.IH"(1) [OF True])
    ultimately show ?thesis
      unfolding D_def [symmetric] split by auto
  next
    case False
    let ?inner = "forEachDependent g (getOrEmpty (graph g) dep) (setAdd dep result)"
    have step: "forEachDependent g (dep # deps) result = forEachDependent g deps ?inner"
      using False by simp
    have "(dep, z) \<in> D" if "z \<in> D `` set (getOrEmpty (graph g) dep)" for z
    proof -
      from that obtain d where "d \<in> dependentsOf g dep" and "(d, z) \<in> D"
        by (auto simp: dependentsOf_def)
      then show ?thesis
        unfolding D_def dependentEdges_def
        by (intro converse_rtrancl_into_rtrancl [of dep d]) simp_all
    qed
    then have below: "D `` set (getOrEmpty (graph g) dep) \<subseteq> D `` {dep}"
      by auto
    have self: "dep \<in> D `` {dep}"
      by (simp add: D_def)
    have "set (setAdd dep result) = insert dep (set result)"
      by (auto simp: setAdd_def)
    with "2.IH"(2) [OF False]
    have "set ?inner \<subseteq> insert dep (set result) \<union> D `` set (getOrEmpty (graph g) dep)"
      by (simp add: D_def)
    with below self have inner: "set ?inner \<subseteq> set result \<union> D `` {dep}"
      by blast
    have "set (forEachDependent g deps ?inner) \<subseteq> set ?inner \<union> D `` set deps"
      unfolding D_def by (rule "2.IH"(3) [OF False])
    with inner show ?thesis
      unfolding D_def [symmetric] split step by auto
  qed
qed

lemma getAllDependents_reach:
  "set (getAllDependents g cell []) \<subseteq> (dependentEdges g)\<^sup>+ `` {cell}"
proof
  fix z
  assume "z \<in> set (getAllDependents g cell [])"
  with forEachDependent_reach [of g "getOrEmpty (graph g) cell" "[]"]
  obtain d where d: "d \<in> dependentsOf g cell" and z: "(d, z) \<in> (dependentEdges g)\<^sup>*"
    by (auto simp: getAllDependents_def dependentsOf_def)
  from d have "(cell, d) \<in> dependentEdges g"
    by (simp add: dependentEdges_def)
  from this z have "(cell, z) \<in> (dependentEdges g)\<^sup>+"
    by (rule rtrancl_into_trancl2)
  then show "z \<in> (dependentEdges g)\<^sup>+ `` {cell}"
    by simp
qed

lemma dependentEdges_reevaluated:
  assumes "edgesConsistent nc g" and "nc d = Some c"
  shows "dependentEdges (snd (evaluateCell rt cells g d (formula c))) = dependentEdges g"
proof -
  from assms have p: "precedents g d = set (refsOf (formula c))"
    by (simp add: edgesConsistent_def formulaOf_def)
  from assms(1) have "(d \<in> dependentsOf g y) = (y \<in> precedents g d)" for y
    by (simp add: edgesConsistent_def)
  with p have "dependentsOf (snd (evaluateCell rt cells g d (formula c))) y = dependentsOf g y" for y
    by (auto simp: dependentsOf_evaluateCell)
  then show ?thesis
    by (simp add: dependentEdges_def)
qed

lemma recalc_reach:
  assumes "edgesConsistent newCells g" and "set queue \<subseteq> (dependentEdges g)\<^sup>+ `` {cellId}"
  shows "\<exists>nc' g' e'. recalc rt cells newCells g visited [] queue = (nc', g', e')
           \<and> dependentEdges g' = dependentEdges g
           \<and> set e' \<subseteq> (dependentEdges g)\<^sup>+ `` {cellId}"
proof -
  define R where "R = dependentEdges g"
  define I where "I = (\<lambda>(nc :: cells) (g :: DependencyGraph) (v :: idset) (e :: string list)
      (q :: string list).
      edgesConsistent nc g \<and> dependentEdges g = R
        \<and> set q \<subseteq> R\<^sup>+ `` {cellId} \<and> set e \<subseteq> R\<^sup>+ `` {cellId})"
  have "\<exists>nc' g' v' e'. recalc rt cells newCells g visited [] queue = (nc', g', e')
           \<and> I nc' g' v' e' []"
  proof (rule recalc_rule)
    show "I newCells g visited [] queue"
      using assms by (simp add: I_def R_def)
  next
    fix nc :: cells and g g' :: DependencyGraph and v :: idset and e q :: "string list"
      and d :: string and c :: cell and r :: evalResult
    assume I: "I nc g v e (d # q)" and c: "nc d = Some c"
      and ev: "evaluateCell rt cells g d (formula c) = (r, g')"
    from ev have g': "g' = snd (evaluateCell rt cells g d (formula c))" by simp
    from I have inv: "edgesConsistent nc g" and R: "dependentEdges g = R"
      and dq: "d \<in> R\<^sup>+ `` {cellId}" by (simp_all add: I_def)
    have inv': "edgesConsistent (nc(d \<mapsto> c\<lparr>display := display r, error := error r\<rparr>)) g'"
      unfolding g' by (rule edgesConsistent_evaluateCell [OF inv]) simp
    have R': "dependentEdges g' = R"
      unfolding g' using dependentEdges_reevaluated [OF inv c] R by simp
    have "set (getAllDependents g' d []) \<subseteq> R\<^sup>+ `` {d}"
      using getAllDependents_reach [of g' d] R' by simp
    also have "\<dots> \<subseteq> R\<^sup>+ `` {cellId}"
      using dq by (auto intro: trancl_trans)
    finally have "set (getAllDependents g' d []) \<subseteq> R\<^sup>+ `` {cellId}" .
    with I inv' R' dq
    show "I (nc(d \<mapsto> c\<lparr>display := display r, error := error r\<rparr>)) g' (setAdd d v) (e @ [d])
        (q @ filter (\<lambda>dep. dep \<notin> set (setAdd d v)) (getAllDependents g' d []))"
      by (auto simp: I_def)
  qed (auto simp: I_def)
  then show ?thesis
    by (auto simp: I_def R_def)
qed

lemma reevaluated_reach:
  assumes "edgesConsistent (sheetCells st) (sheetGraph st)"
  shows "set (reevaluated rt st cellId rawText)
           \<subseteq> (dependentEdges (sheetGraph (applyEdit rt st cellId rawText)))\<^sup>+ `` {cellId}"
proof -
  obtain r g1 where ev: "evaluateCell rt (sheetCells st) (sheetGraph st) cellId rawText = (r, g1)"
    by (cases "evaluateCell rt (sheetCells st) (sheetGraph st) cellId rawText")
  let ?nc = "(sheetCells st)(cellId \<mapsto>
      \<lparr>display = display r, formula = formula r, error = error r, rawValue = rawText\<rparr>)"
  have fr: "formula r = rawText"
    using formula_evaluateCell [of rt "sheetCells st" "sheetGraph st" cellId rawText]
    by (simp add: ev)
  have "edgesConsistent ?nc (snd (evaluateCell rt (sheetCells st) (sheetGraph st) cellId rawText))"
    by (rule edgesConsistent_evaluateCell [OF assms]) (simp add: fr)
  then have "edgesConsistent ?nc g1" by (simp add: ev)
  from recalc_reach [OF this getAllDependents_reach [of g1 cellId], of rt "sheetCells st" "[cellId]"]
  obtain nc' g' e' where
    "recalc rt (sheetCells st) ?nc g1 [cellId] [] (getAllDependents g1 cellId []) = (nc', g', e')"
    and "dependentEdges g' = dependentEdges g1"
    and "set e' \<subseteq> (dependentEdges g1)\<^sup>+ `` {cellId}"
    by (elim exE conjE)
  then show ?thesis
    by (simp add: reevaluated_def applyEdit_def updateCell_def ev Let_def)
qed

lemma formulaOf_applyEdit:
  "formulaOf (sheetCells (applyEdit rt st cellId rawText)) cellId = rawText"
  by (simp add: formulaOf_def applyEdit_edited_cell)

lemma refsOf_examples:
  "refsOf ''=A1+B1'' = [''A1'', ''B1'']" "refsOf ''=A1'' = [''A1'']"
  by code_simp+

text \<open>
  C6. After any sequence of edits from the initial sheet, the precedent edges of every
  cell \<open>x\<close> are exactly the references of its current formula (none for a literal), and
  the index of dependents agrees with the index of precedents. An edit re-evaluates
  only cells that the edited cell reaches along the edges to dependents. So editing
  \<open>x\<close> from \<open>=A1+B1\<close> to \<open>=A1\<close> registers and then drops the edge from \<open>x\<close> to \<open>B1\<close>
  in both indexes; and on the initial sheet, after these two edits of \<open>C1\<close>, an edit
  of \<open>B1\<close> re-evaluates no cell.
\<close>

theorem edges_match_current_formula:
  "precedents (sheetGraph (applyEdits rt initialSheet edits)) x
     = set (refsOf (formulaOf (sheetCells (applyEdits rt initialSheet edits)) x))
   \<and> (x \<in> dependentsOf (sheetGraph (applyEdits rt initialSheet edits)) y)
     = (y \<in> precedents (sheetGraph (applyEdits rt initialSheet edits)) x)
   \<and> set (reevaluated rt (applyEdits rt initialSheet edits) cellId rawText)
     \<subseteq> (dependentEdges (sheetGraph
           (applyEdit rt (applyEdits rt initialSheet edits) cellId rawText)))\<^sup>+ `` {cellId}
   \<and> ''B1'' \<in> precedents (sheetGraph
        (applyEdits rt initialSheet (edits @ [(x, ''=A1+B1'')]))) x
   \<and> ''B1'' \<notin> precedents (sheetGraph
        (applyEdits rt initialSheet (edits @ [(x, ''=A1+B1''), (x, ''=A1'')]))) x
   \<and> x \<notin> dependentsOf (sheetGraph
        (applyEdits rt initialSheet (edits @ [(x, ''=A1+B1''), (x, ''=A1'')]))) ''B1''
   \<and> reevaluated decimalRuntime
        (applyEdits decimalRuntime initialSheet [(''C1'', ''=A1+B1''), (''C1'', ''=A1'')])
        ''B1'' ''7'' = []"
proof -
  have inv: "precedents (sheetGraph (applyEdits rt initialSheet es)) a
        = set (refsOf (formulaOf (sheetCells (applyEdits rt initialSheet es)) a))
      \<and> (a \<in> dependentsOf (sheetGraph (applyEdits rt initialSheet es)) b)
        = (b \<in> precedents (sheetGraph (applyEdits rt initialSheet es)) a)" for es a b
    using edgesConsistent_reachable [of rt es] by (simp add: edgesConsistent_def)
  have one: "precedents (sheetGraph (applyEdits rt initialSheet (edits @ [(x, ''=A1+B1'')]))) x
      = {''A1'', ''B1''}"
    using inv [of "edits @ [(x, ''=A1+B1'')]" x]
    by (simp add: applyEdits_append formulaOf_applyEdit refsOf_examples)
  have "edits @ [(x, ''=A1+B1''), (x, ''=A1'')] = (edits @ [(x, ''=A1+B1'')]) @ [(x, ''=A1'')]"
    by simp
  then have two: "precedents (sheetGraph
      (applyEdits rt initialSheet (edits @ [(x, ''=A1+B1''), (x, ''=A1'')]))) x = {''A1''}"
    using inv [of "edits @ [(x, ''=A1+B1''), (x, ''=A1'')]" x]
    by (simp only: applyEdits_append formulaOf_applyEdit refsOf_examples) simp
  have three: "x \<notin> dependentsOf (sheetGraph
      (applyEdits rt initialSheet (edits @ [(x, ''=A1+B1''), (x, ''=A1'')]))) ''B1''"
    using inv [of "edits @ [(x, ''=A1+B1''), (x, ''=A1'')]" x "''B1''"] two by simp
  have four: "reevaluated decimalRuntime
      (applyEdits decimalRuntime initialSheet [(''C1'', ''=A1+B1''), (''C1'', ''=A1'')])
      ''B1'' ''7'' = []"
    by code_simp
  have five: "set (reevaluated rt (applyEdits rt initialSheet edits) cellId rawText)
      \<subseteq> (dependentEdges (sheetGraph
            (applyEdit rt (applyEdits rt initialSheet edits) cellId rawText)))\<^sup>+ `` {cellId}"
    by (rule reevaluated_reach [OF edgesConsistent_reachable])
  show ?thesis
    using inv [of edits x y] one two three four five by simp
qed

section \<open>Termination of the recalculation pass\<close>

lemma length_cellIds: "length cellIds = 100"
  by code_simp

lemma recalc_once_each:
  assumes "cellId \<in> set visited"
  shows "\<exists>nc' g' e'. recalc rt cells newCells g visited [] queue = (nc', g', e')
           \<and> distinct e' \<and> cellId \<notin> set e' \<and> set e' \<subseteq> dom newCells
           \<and> dom nc' = dom newCells"
proof -
  define I where "I = (\<lambda>(nc :: cells) (g :: DependencyGraph) (v :: idset) (e :: string list)
      (q :: string list).
      distinct e \<and> set e \<subseteq> set v \<and> cellId \<in> set v \<and> cellId \<notin> set e
        \<and> set e \<subseteq> dom newCells \<and> dom nc = dom newCells)"
  have "\<exists>nc' g' v' e'. recalc rt cells newCells g visited [] queue = (nc', g', e')
           \<and> I nc' g' v' e' []"
  proof (rule recalc_rule)
    show "I newCells g visited [] queue"
      using assms by (simp add: I_def)
  next
    fix nc g v e d q c r g'
    assume I: "I nc g v e (d # q)" and nv: "d \<notin> set v" and c: "nc d = Some c"
    from c have "d \<in> dom nc" by blast
    then have "dom (nc(d \<mapsto> c\<lparr>display := display r, error := error r\<rparr>)) = dom nc"
      by auto
    with I nv \<open>d \<in> dom nc\<close>
    show "I (nc(d \<mapsto> c\<lparr>display := display r, error := error r\<rparr>)) g' (setAdd d v) (e @ [d])
        (q @ filter (\<lambda>dep. dep \<notin> set (setAdd d v)) (getAllDependents g' d []))"
      unfolding I_def setAdd_def by auto
  qed (auto simp: I_def setAdd_def)
  then show ?thesis by (auto simp: I_def)
qed

lemma updateCell_once_each:
  "\<exists>newCells g' evaluated. updateCell rt cells g prev cellId rawText = (newCells, g', evaluated)
     \<and> distinct evaluated \<and> cellId \<notin> set evaluated \<and> set evaluated \<subseteq> dom prev
     \<and> dom newCells = insert cellId (dom prev)"
proof -
  obtain r g1 where ev: "evaluateCell rt cells g cellId rawText = (r, g1)"
    by (cases "evaluateCell rt cells g cellId rawText")
  let ?nc = "prev(cellId \<mapsto> \<lparr>display = display r, formula = formula r, error = error r,
      rawValue = rawText\<rparr>)"
  have "\<exists>nc' g' e'. recalc rt cells ?nc g1 [cellId] [] (getAllDependents g1 cellId []) = (nc', g', e')
      \<and> distinct e' \<and> cellId \<notin> set e' \<and> set e' \<subseteq> dom ?nc \<and> dom nc' = dom ?nc"
    by (rule recalc_once_each) simp
  then show ?thesis
    using ev by (auto simp: updateCell_def Let_def)
qed

lemma dom_applyEdit:
  "dom (sheetCells (applyEdit rt st cellId rawText)) = insert cellId (dom (sheetCells st))"
  using updateCell_once_each [of rt "sheetCells st" "sheetGraph st" "sheetCells st" cellId rawText]
  by (elim exE conjE) (simp add: applyEdit_def)

text \<open>
  C7. The recalculation loop of an edit is a total function (\<open>recalc\<close>, whose termination
  is proved where it is defined: each pass through the body either shortens the queue
  or adds to \<open>visited\<close> a cell that was not in it). It re-evaluates no cell twice and
  never the edited cell, only cells of the table; so on the table of the hundred cells
  \<open>A1\<close> to \<open>J10\<close> a pass re-evaluates at most a hundred cells.
\<close>

theorem recalculation_once_each:
  "distinct (reevaluated rt st cellId rawText)
   \<and> cellId \<notin> set (reevaluated rt st cellId rawText)
   \<and> set (reevaluated rt st cellId rawText) \<subseteq> dom (sheetCells st)
   \<and> (dom (sheetCells st) \<subseteq> set cellIds \<longrightarrow> length (reevaluated rt st cellId rawText) \<le> 100)"
proof -
  from updateCell_once_each [of rt "sheetCells st" "sheetGraph st" "sheetCells st" cellId rawText]
  obtain newCells g' evaluated
    where u: "updateCell rt (sheetCells st) (sheetGraph st) (sheetCells st) cellId rawText
        = (newCells, g', evaluated)"
      and d: "distinct evaluated" and n: "cellId \<notin> set evaluated"
      and s: "set evaluated \<subseteq> dom (sheetCells st)"
    by (elim exE conjE)
  have r: "reevaluated rt st cellId rawText = evaluated"
    by (simp add: reevaluated_def u)
  have "length evaluated \<le> 100" if "dom (sheetCells st) \<subseteq> set cellIds"
  proof -
    have "length evaluated = card (set evaluated)"
      using d by (simp add: distinct_card)
    also have "\<dots> \<le> card (set cellIds)"
      using s that by (intro card_mono) auto
    also have "\<dots> \<le> length cellIds" by (rule card_length)
    finally show ?thesis by (simp add: length_cellIds)
  qed
  with r d n s show ?thesis by simp
qed

theorem recalculation_once_each_witness:
  "dom (sheetCells exampleSheet) \<subseteq> set cellIds
   \<and> reevaluated decimalRuntime exampleSheet ''A1'' ''10'' = [''B1'', ''C1'']
   \<and> distinct (reevaluated decimalRuntime exampleSheet ''A1'' ''10'')
   \<and> ''A1'' \<notin> set (reevaluated decimalRuntime exampleSheet ''A1'' ''10'')
   \<and> length (reevaluated decimalRuntime exampleSheet ''A1'' ''10'') \<le> 100"
proof -
  have "dom (sheetCells initialSheet) \<subseteq> set cellIds"
    by (auto simp: initialSheet_def initialCells_def split: if_splits)
  moreover have "''A1'' \<in> set cellIds" "''B1'' \<in> set cellIds" "''C1'' \<in> set cellIds"
    by code_simp+
  ultimately have d: "dom (sheetCells exampleSheet) \<subseteq> set cellIds"
    by (simp add: exampleSheet_def applyEdits_def dom_applyEdit)
  have r: "reevaluated decimalRuntime exampleSheet ''A1'' ''10'' = [''B1'', ''C1'']"
    by code_simp
  from recalculation_once_each [of decimalRuntime exampleSheet "''A1''" "''10''"] d r
  show ?thesis by simp
qed

section \<open>The same edit twice\<close>

text \<open>
  C8, which the code does not meet. With \<open>A1\<close> holding \<open>5\<close> and \<open>B1\<close> holding
  \<open>=A1+3\<close>, the edit of \<open>A1\<close> to \<open>10\<close> leaves \<open>B1\<close> at \<open>8\<close>; the same edit applied
  again finds \<open>10\<close> in the captured table and changes \<open>B1\<close> to \<open>13\<close>. The records after
  the two applications differ.
\<close>

theorem same_edit_twice_differs:
  "displayOf (applyEdit decimalRuntime twoCellSheet ''A1'' ''10'') ''B1'' = Some ''8''
   \<and> displayOf (applyEdit decimalRuntime (applyEdit decimalRuntime twoCellSheet ''A1'' ''10'')
         ''A1'' ''10'') ''B1'' = Some ''13''"
  by code_simp

section \<open>References inside other text\<close>



















section \<open>Recovery of a failed formula\<close>

text \<open>
  C10, which the code does not meet in its last part. Entered while \<open>A1\<close> is empty,
  \<open>=A1+3\<close> in \<open>B1\<close> fails, and the edge between \<open>B1\<close> and \<open>A1\<close> stays in both
  indexes. The edit of \<open>A1\<close> to \<open>5\<close> then re-evaluates \<open>B1\<close>, but against the table
  captured before the edit, where \<open>A1\<close> is still empty: \<open>B1\<close> keeps showing \<open>#ERROR\<close>.
\<close>

theorem errored_dependent_not_recovered:
  "displayOf erroredSheet ''B1'' = Some ''#ERROR''
   \<and> errorOf erroredSheet ''B1'' = Some (Some ''Invalid reference: A1'')
   \<and> precedents (sheetGraph erroredSheet) ''B1'' = {''A1''}
   \<and> dependentsOf (sheetGraph erroredSheet) ''A1'' = {''B1''}
   \<and> reevaluated decimalRuntime erroredSheet ''A1'' ''5'' = [''B1'']
   \<and> displayOf (applyEdit decimalRuntime erroredSheet ''A1'' ''5'') ''A1'' = Some ''5''
   \<and> displayOf (applyEdit decimalRuntime erroredSheet ''A1'' ''5'') ''B1'' = Some ''#ERROR''"
  by code_simp

end
